theory Spec2Isabelle
  imports Main "HOL-Library.Word"
begin

text \<open>
  The request loop of \<open>client.ts\<close> and the event decoder of \<open>streaming.ts\<close>, with
  the error classes of \<open>errors.ts\<close>. The network and the host are inputs of the
  model: what each call of \<open>fetch\<close> and of \<open>reader.read\<close> does is given, and so are the
  built-ins \<open>JSON.parse\<close>, \<open>parseFloat\<close> and the string conversion of the \<open>Error\<close>
  constructor. Timers are not modelled: the abort of a request by its timer is a
  rejection of \<open>fetch\<close> whose name is \<open>AbortError\<close>, and a sleep is recorded with its
  argument. \<open>maxRetries\<close> is a natural number.
\<close>

section \<open>JavaScript values\<close>

text \<open>
  A JavaScript string is a sequence of UTF-16 code units: \<open>length\<close>, \<open>slice\<close>,
  \<open>indexOf\<close>, \<open>split\<close>, \<open>startsWith\<close>, \<open>trim\<close> and \<open>===\<close> all count and compare
  code units. \<open>js\<close> writes an ASCII literal of the source as such a string.
\<close>

type_synonym code_unit = "16 word"

type_synonym jstring = "code_unit list"

definition js :: "string \<Rightarrow> jstring" where
  "js s = map of_char s"

text \<open>
  The values \<open>JSON.parse\<close> produces. Numbers are IEEE doubles in the host; the model
  keeps them opaque in the type parameter \<open>'n\<close>. An object is the list of its own
  properties (\<open>JSON.parse\<close> has already resolved duplicate keys).
\<close>

datatype 'n json =
    JNull
  | JBool bool
  | JNum 'n
  | JStr jstring
  | JArr "'n json list"
  | JObj "(jstring \<times> 'n json) list"

text \<open>
  An exception that does not belong to the library (a \<open>TypeError\<close> of \<open>fetch\<close>, the
  \<open>DOMException\<close> of an abort, a \<open>SyntaxError\<close> of \<open>JSON.parse\<close>): \<open>e?.name\<close>,
  \<open>e?.message\<close> (\<open>None\<close> when null or undefined) and the string \<open>`${e}`\<close>.
\<close>

record js_exn =
  exn_name :: "jstring option"
  exn_message :: "jstring option"
  exn_string :: jstring

definition SyntaxError :: "jstring \<Rightarrow> js_exn" where
  "SyntaxError m =
     \<lparr>exn_name = Some (js ''SyntaxError''), exn_message = Some m,
      exn_string = js ''SyntaxError: '' @ m\<rparr>"

text \<open>
  The three built-ins of the host the code calls and the repository does not define:
  \<open>JSON.parse\<close> (\<open>Inl m\<close>: it throws a \<open>SyntaxError\<close> with message \<open>m\<close>), \<open>parseFloat\<close>,
  and the string conversion that the \<open>Error\<close> constructor applies to a message that is
  not a string (\<open>Inl e\<close>: the conversion throws \<open>e\<close>, as it does for an object whose own
  \<open>toString\<close> and \<open>valueOf\<close> are not callable).
\<close>

record 'n host =
  JSON_parse :: "jstring \<Rightarrow> jstring + 'n json"
  parseFloat :: "jstring \<Rightarrow> 'n"
  ToString :: "'n json \<Rightarrow> js_exn + jstring"

section \<open>errors.ts\<close>

text \<open>
  The class hierarchy: \<open>WaterlightError\<close> with \<open>message\<close>, optional \<open>status\<close> and
  optional \<open>requestId\<close>, and its four subclasses. \<open>AuthenticationError\<close>,
  \<open>RateLimitError\<close> and \<open>InsufficientCreditsError\<close> fix the status in their
  constructors; \<open>RateLimitError\<close> adds the optional \<open>retryAfter\<close>.
\<close>

datatype 'n werror =
    WaterlightError jstring "nat option" "jstring option"
  | AuthenticationError jstring "jstring option"
  | RateLimitError jstring "'n option" "jstring option"
  | InsufficientCreditsError jstring "jstring option"
  | APIError jstring "nat option" "jstring option"

fun error_message :: "'n werror \<Rightarrow> jstring" where
  "error_message (WaterlightError m s r) = m"
| "error_message (AuthenticationError m r) = m"
| "error_message (RateLimitError m ra r) = m"
| "error_message (InsufficientCreditsError m r) = m"
| "error_message (APIError m s r) = m"

fun error_status :: "'n werror \<Rightarrow> nat option" where
  "error_status (WaterlightError m s r) = s"
| "error_status (AuthenticationError m r) = Some 401"
| "error_status (RateLimitError m ra r) = Some 429"
| "error_status (InsufficientCreditsError m r) = Some 402"
| "error_status (APIError m s r) = s"

fun error_requestId :: "'n werror \<Rightarrow> jstring option" where
  "error_requestId (WaterlightError m s r) = r"
| "error_requestId (AuthenticationError m r) = r"
| "error_requestId (RateLimitError m ra r) = r"
| "error_requestId (InsufficientCreditsError m r) = r"
| "error_requestId (APIError m s r) = r"

text \<open>What a \<open>catch\<close> clause receives: \<open>e instanceof WaterlightError\<close> is \<open>Typed\<close>.\<close>

datatype 'n thrown = Typed "'n werror" | Foreign js_exn

section \<open>client.ts: responses and handleError\<close>

text \<open>
  A \<open>Response\<close>: the status, \<open>headers.get\<close> as a partial map from the lower-case name
  to the value, and the body as \<open>res.text()\<close> delivers it (\<open>Inl e\<close>: reading the body
  rejects with \<open>e\<close>). \<open>res.ok\<close> is the 2xx range.
\<close>

record response =
  status :: nat
  headers :: "jstring \<rightharpoonup> jstring"
  body :: "js_exn + jstring"

definition ok :: "response \<Rightarrow> bool" where
  "ok res = (200 \<le> status res \<and> status res \<le> 299)"

definition res_json :: "'n host \<Rightarrow> response \<Rightarrow> js_exn + 'n json" where
  "res_json h res =
     (case body res of
        Inl e \<Rightarrow> Inl e
      | Inr t \<Rightarrow> (case JSON_parse h t of
                   Inl m \<Rightarrow> Inl (SyntaxError m)
                 | Inr v \<Rightarrow> Inr v))"

definition DEFAULT_MAX_RETRIES :: nat where
  "DEFAULT_MAX_RETRIES = 2"

definition RETRYABLE_STATUS :: "nat set" where
  "RETRYABLE_STATUS = {429, 500, 502, 503, 504}"

text \<open>
  \<open>v?.k\<close> for the two keys the code reads, \<open>error\<close> and \<open>message\<close>: an own property
  of an object, undefined (\<open>None\<close>) on every other value.
\<close>

fun get_prop :: "'n json \<Rightarrow> jstring \<Rightarrow> 'n json option" where
  "get_prop (JObj kvs) k = map_of kvs k"
| "get_prop v k = None"

text \<open>\<open>typeof v === 'object'\<close>: true of null, arrays and objects.\<close>

fun typeof_object :: "'n json \<Rightarrow> bool" where
  "typeof_object JNull = True"
| "typeof_object (JArr xs) = True"
| "typeof_object (JObj kvs) = True"
| "typeof_object v = False"

text \<open>
  \<open>(typeof errObj === 'object' ? errObj?.message : errObj) ?? 'Request failed'\<close>
  with \<open>errObj = body?.error\<close>: the value passed to the error constructor.
\<close>

definition error_msg :: "'n json \<Rightarrow> 'n json" where
  "error_msg data =
     (let errObj = get_prop data (js ''error'');
          picked = (case errObj of
                      None \<Rightarrow> None
                    | Some e \<Rightarrow> if typeof_object e then get_prop e (js ''message'') else Some e)
      in case picked of
           None \<Rightarrow> JStr (js ''Request failed'')
         | Some JNull \<Rightarrow> JStr (js ''Request failed'')
         | Some v \<Rightarrow> v)"

text \<open>\<open>super(message)\<close>: a string is kept, any other value is converted by the host.\<close>

definition message_string :: "'n host \<Rightarrow> 'n json \<Rightarrow> js_exn + jstring" where
  "message_string h v = (case v of JStr s \<Rightarrow> Inr s | _ \<Rightarrow> ToString h v)"

text \<open>\<open>ra ? parseFloat(ra) : undefined\<close>: null and the empty string are falsy.\<close>

definition parse_retry_after :: "'n host \<Rightarrow> jstring option \<Rightarrow> 'n option" where
  "parse_retry_after h ra =
     (case ra of
        None \<Rightarrow> None
      | Some s \<Rightarrow> if s \<noteq> [] then Some (parseFloat h s) else None)"

text \<open>
  \<open>handleError\<close> never returns. It throws the typed error selected by the status, or,
  when building that error fails on the conversion of the message, the exception of
  the conversion.
\<close>

definition handleError :: "'n host \<Rightarrow> nat \<Rightarrow> 'n json \<Rightarrow> (jstring \<rightharpoonup> jstring) \<Rightarrow> 'n thrown" where
  "handleError h st data hdrs =
     (let msg = error_msg data;
          requestId = hdrs (js ''x-request-id'')
      in case message_string h msg of
           Inl e \<Rightarrow> Foreign e
         | Inr m \<Rightarrow>
             if st = 401 then Typed (AuthenticationError m requestId)
             else if st = 429 then
               Typed (RateLimitError m (parse_retry_after h (hdrs (js ''retry-after''))) requestId)
             else if st = 402 then Typed (InsufficientCreditsError m requestId)
             else Typed (APIError m (Some st) requestId))"

section \<open>client.ts: the request loop\<close>

record client =
  apiKey :: jstring
  baseUrl :: jstring
  timeout :: nat
  maxRetries :: nat

text \<open>What \<open>await fetch(...)\<close> does in one attempt.\<close>

datatype fetch_outcome = Resolves response | Rejects js_exn

text \<open>
  The argument of \<open>sleep\<close>, a double: \<open>Times1000 x\<close> is the product
  \<open>parseFloat(retryAfter) * 1000\<close> for the parsed number \<open>x\<close>, \<open>Millis n\<close> is the double
  that is the natural number \<open>n\<close>, and \<open>InfiniteDelay\<close> is \<open>Infinity\<close>.
\<close>

datatype 'n delay = Times1000 'n | Millis nat | InfiniteDelay

text \<open>
  \<open>500 * 2 ** attempt\<close> in the doubles of the host. A power of two below \<open>2 ^ 1024\<close> is
  a double, and 500 times it is exact as long as it is below \<open>2 ^ 1024\<close>, which is up to
  attempt 1015 (\<open>500 * 2 ^ 1015 < 2 ^ 1024 \<le> 500 * 2 ^ 1016\<close>). From attempt 1016 the
  product overflows, and from attempt 1024 the power does: the result is \<open>Infinity\<close>.
\<close>

definition backoff :: "nat \<Rightarrow> 'n delay" where
  "backoff attempt = (if attempt \<le> 1015 then Millis (500 * 2 ^ attempt) else InfiniteDelay)"

text \<open>
  \<open>retryAfter ? parseFloat(retryAfter) * 1000 : 500 * 2 ** attempt\<close>
\<close>

definition retry_delay :: "'n host \<Rightarrow> response \<Rightarrow> nat \<Rightarrow> 'n delay" where
  "retry_delay h res attempt =
     (case headers res (js ''retry-after'') of
        None \<Rightarrow> backoff attempt
      | Some retryAfter \<Rightarrow>
          if retryAfter \<noteq> [] then Times1000 (parseFloat h retryAfter)
          else backoff attempt)"

text \<open>The \<open>catch\<close> clause of \<open>_request\<close>.\<close>

fun on_catch :: "'n thrown \<Rightarrow> 'n werror" where
  "on_catch (Typed w) = w"
| "on_catch (Foreign e) =
     (if exn_name e = Some (js ''AbortError'')
      then APIError (js ''Request timed out'') (Some 408) None
      else APIError
             (js ''Network error: '' @ (case exn_message e of Some m \<Rightarrow> m | None \<Rightarrow> exn_string e))
             (Some 0) None)"

text \<open>One pass through the body of \<open>while (true)\<close>.\<close>

datatype 'n step = Retry "'n delay" | Return "'n json" | Throw "'n werror"

definition attempt_once :: "'n host \<Rightarrow> client \<Rightarrow> nat \<Rightarrow> fetch_outcome \<Rightarrow> 'n step" where
  "attempt_once h c attempt outcome =
     (case outcome of
        Rejects e \<Rightarrow> Throw (on_catch (Foreign e))
      | Resolves res \<Rightarrow>
          if \<not> ok res then
            if status res \<in> RETRYABLE_STATUS \<and> attempt < maxRetries c
            then Retry (retry_delay h res attempt)
            else Throw (on_catch
                   (handleError h (status res)
                      (case res_json h res of Inl e \<Rightarrow> JObj [] | Inr d \<Rightarrow> d)
                      (headers res)))
          else (case res_json h res of
                  Inl e \<Rightarrow> Throw (on_catch (Foreign e))
                | Inr v \<Rightarrow> Return v))"

text \<open>
  What one call of \<open>_request\<close> did: its result, the number of calls of \<open>fetch\<close>, and the
  arguments of \<open>sleep\<close> in order.
\<close>

record 'n run =
  result :: "'n werror + 'n json"
  fetches :: nat
  sleeps :: "'n delay list"

text \<open>
  The loop of \<open>_request\<close>. The network is the function \<open>net\<close>: the \<open>k\<close>-th call of
  \<open>fetch\<close> (from 0) has the outcome \<open>net k\<close>. \<open>attempt\<close> is the loop's counter,
  \<open>calls\<close> and \<open>slept\<close> are the fetches and sleeps so far.
\<close>

function request_loop ::
  "'n host \<Rightarrow> client \<Rightarrow> (nat \<Rightarrow> fetch_outcome) \<Rightarrow> nat \<Rightarrow> nat \<Rightarrow> 'n delay list \<Rightarrow> 'n run" where
  "request_loop h c net attempt calls slept =
     (case attempt_once h c attempt (net calls) of
        Retry d \<Rightarrow> request_loop h c net (Suc attempt) (Suc calls) (slept @ [d])
      | Return v \<Rightarrow> \<lparr>result = Inr v, fetches = Suc calls, sleeps = slept\<rparr>
      | Throw e \<Rightarrow> \<lparr>result = Inl e, fetches = Suc calls, sleeps = slept\<rparr>)"
  by pat_completeness auto
termination
  by (relation "measure (\<lambda>(h, c, net, attempt, calls, slept). maxRetries c - attempt)")
     (auto simp: attempt_once_def split: fetch_outcome.splits if_splits sum.splits)

declare request_loop.simps [simp del]

definition request :: "'n host \<Rightarrow> client \<Rightarrow> (nat \<Rightarrow> fetch_outcome) \<Rightarrow> 'n run" where
  "request h c net = request_loop h c net 0 0 []"

section \<open>streaming.ts\<close>

definition MAX_SSE_BUFFER :: nat where
  "MAX_SSE_BUFFER = 10 * 1024 * 1024"

text \<open>
  \<open>s.indexOf(needle)\<close>: the first index at which \<open>needle\<close> occurs, \<open>None\<close> for -1.
\<close>

fun index_of :: "jstring \<Rightarrow> jstring \<Rightarrow> nat option" where
  "index_of needle [] = (if needle = [] then Some 0 else None)"
| "index_of needle (c # cs) =
     (if take (length needle) (c # cs) = needle then Some 0
      else map_option Suc (index_of needle cs))"

text \<open>\<open>s.split(sep)\<close> for a separator of one code unit.\<close>

fun js_split :: "code_unit \<Rightarrow> jstring \<Rightarrow> jstring list" where
  "js_split sep [] = [[]]"
| "js_split sep (c # cs) =
     (if c = sep then [] # js_split sep cs
      else (case js_split sep cs of
              [] \<Rightarrow> [[c]]
            | l # ls \<Rightarrow> (c # l) # ls))"

text \<open>\<open>s.startsWith(p)\<close>\<close>

definition starts_with :: "jstring \<Rightarrow> jstring \<Rightarrow> bool" where
  "starts_with s p = (take (length p) s = p)"

text \<open>
  \<open>s.trim()\<close> removes the white space and line terminators of ECMAScript from both
  ends: TAB, LF, VT, FF, CR, SP, NBSP, U+1680, U+2000 to U+200A, LS, PS, U+202F,
  U+205F, U+3000 and the byte order mark.
\<close>

definition is_space :: "code_unit \<Rightarrow> bool" where
  "is_space c =
     (c \<in> {0x09, 0x0A, 0x0B, 0x0C, 0x0D, 0x20, 0xA0, 0x1680, 0x2028, 0x2029, 0x202F,
            0x205F, 0x3000, 0xFEFF}
      \<or> (0x2000 \<le> c \<and> c \<le> 0x200A))"

definition js_trim :: "jstring \<Rightarrow> jstring" where
  "js_trim s = rev (dropWhile is_space (rev (dropWhile is_space s)))"

definition LF :: code_unit where
  "LF = 0x0A"

text \<open>
  The \<open>for\<close> loop over the lines of one frame. The result is the events yielded, in
  order, and whether the loop left the generator at \<open>[DONE]\<close>. A line whose payload
  \<open>JSON.parse\<close> rejects is skipped by the empty \<open>catch\<close>.
\<close>

fun process_lines :: "'n host \<Rightarrow> jstring list \<Rightarrow> 'n json list \<times> bool" where
  "process_lines h [] = ([], False)"
| "process_lines h (line # rest) =
     (if \<not> starts_with line (js ''data:'') then process_lines h rest
      else
        let data = js_trim (drop 5 line)
        in if data = js ''[DONE]'' then ([], True)
           else (case JSON_parse h data of
                   Inl m \<Rightarrow> process_lines h rest
                 | Inr v \<Rightarrow> (case process_lines h rest of
                              (evs, stop) \<Rightarrow> (v # evs, stop))))"

text \<open>
  The inner \<open>while\<close> loop: as long as the buffer holds the delimiter, cut the first
  frame off and process its lines. The result is the events yielded, whether
  \<open>[DONE]\<close> was met, and the buffer that is left.
\<close>

function process_buffer :: "'n host \<Rightarrow> jstring \<Rightarrow> 'n json list \<times> bool \<times> jstring" where
  "process_buffer h buffer =
     (case index_of [LF, LF] buffer of
        None \<Rightarrow> ([], False, buffer)
      | Some boundary \<Rightarrow>
          (case process_lines h (js_split LF (take boundary buffer)) of
             (evs, True) \<Rightarrow> (evs, True, drop (boundary + 2) buffer)
           | (evs, False) \<Rightarrow>
               (case process_buffer h (drop (boundary + 2) buffer) of
                  (evs', r) \<Rightarrow> (evs @ evs', r))))"
  by pat_completeness auto
termination
proof (relation "measure (\<lambda>(h, buffer). length buffer)")
  show "wf (measure (\<lambda>(h :: 'n host, buffer :: jstring). length buffer))"
    by simp
next
  fix h :: "'n host" and buffer :: jstring and boundary :: nat
  assume "index_of [LF, LF] buffer = Some boundary"
  then have "buffer \<noteq> []"
    by (cases buffer) auto
  then show "((h, drop (boundary + 2) buffer), (h, buffer))
               \<in> measure (\<lambda>(h, buffer). length buffer)"
    by simp
qed

declare process_buffer.simps [simp del]

text \<open>
  What \<open>await reader.read()\<close> does: a chunk, given as the text that
  \<open>decoder.decode(value, { stream: true })\<close> makes of it, or a rejection. The reads of
  a body are a list; at its end \<open>read\<close> reports \<open>done\<close>.
\<close>

datatype read = Chunk jstring | ReadFails js_exn

text \<open>
  The body of the outer \<open>while\<close> loop after a chunk has arrived: append, check the
  bound, process the complete frames.
\<close>

datatype 'n fed = Overflow | Stop "'n json list" | Continue "'n json list" jstring

definition on_chunk :: "'n host \<Rightarrow> jstring \<Rightarrow> jstring \<Rightarrow> 'n fed" where
  "on_chunk h buffer text =
     (if length (buffer @ text) > MAX_SSE_BUFFER then Overflow
      else (case process_buffer h (buffer @ text) of
              (evs, True, rest) \<Rightarrow> Stop evs
            | (evs, False, rest) \<Rightarrow> Continue evs rest))"

text \<open>
  How the generator ends, and what one traversal of it did: the events yielded in
  order, the ending, the number of calls of \<open>fetch\<close> and of \<open>reader.read\<close>.
\<close>

datatype 'n ending = Returned | Threw "'n thrown"

record 'n stream_run =
  events :: "'n json list"
  ending :: "'n ending"
  connects :: nat
  reads :: nat

definition overflow_error :: "'n werror" where
  "overflow_error =
     APIError (js ''SSE buffer overflow: server sent too much data without delimiters'')
       (Some 0) None"

fun read_loop :: "'n host \<Rightarrow> jstring \<Rightarrow> nat \<Rightarrow> read list \<Rightarrow> 'n stream_run" where
  "read_loop h buffer n [] =
     \<lparr>events = [], ending = Returned, connects = 1, reads = Suc n\<rparr>"
| "read_loop h buffer n (ReadFails e # rest) =
     \<lparr>events = [], ending = Threw (Foreign e), connects = 1, reads = Suc n\<rparr>"
| "read_loop h buffer n (Chunk text # rest) =
     (case on_chunk h buffer text of
        Overflow \<Rightarrow>
          \<lparr>events = [], ending = Threw (Typed overflow_error), connects = 1, reads = Suc n\<rparr>
      | Stop evs \<Rightarrow>
          \<lparr>events = evs, ending = Returned, connects = 1, reads = Suc n\<rparr>
      | Continue evs buffer' \<Rightarrow>
          (let r = read_loop h buffer' (Suc n) rest
           in r\<lparr>events := evs @ events r\<rparr>))"

text \<open>The decimal digits of a status in \<open>`${res.status}`\<close>.\<close>

fun decimal :: "nat \<Rightarrow> jstring" where
  "decimal n =
     (if n < 10 then [of_nat (48 + n)]
      else decimal (n div 10) @ [of_nat (48 + n mod 10)])"

declare decimal.simps [simp del]

text \<open>
  One traversal of the stream: the request, the check of the status, the read loop.
  \<open>net 0\<close> is the outcome of the only call of \<open>fetch\<close>; \<open>reader\<close> is what
  \<open>res.body!.getReader()\<close> gives: the reads of the body, or \<open>Inl e\<close> when the response
  has no body and the call throws \<open>e\<close>.
\<close>

definition stream_iterate ::
  "'n host \<Rightarrow> (nat \<Rightarrow> fetch_outcome) \<Rightarrow> js_exn + read list \<Rightarrow> 'n stream_run" where
  "stream_iterate h net reader =
     (case net 0 of
        Rejects e \<Rightarrow>
          \<lparr>events = [],
           ending = Threw (Typed
             (if exn_name e = Some (js ''AbortError'')
              then APIError (js ''Stream request timed out'') (Some 408) None
              else APIError
                     (js ''Network error: ''
                        @ (case exn_message e of Some m \<Rightarrow> m | None \<Rightarrow> exn_string e))
                     (Some 0) None)),
           connects = 1, reads = 0\<rparr>
      | Resolves res \<Rightarrow>
          if \<not> ok res then
            (let errMsg = (case body res of Inl e \<Rightarrow> [] | Inr t \<Rightarrow> t)
             in \<lparr>events = [],
                 ending = Threw (Typed
                   (WaterlightError
                      (js ''Streaming error: '' @ decimal (status res) @ js '' '' @ errMsg)
                      (Some (status res)) None)),
                 connects = 1, reads = 0\<rparr>)
          else (case reader of
                  Inl e \<Rightarrow> \<lparr>events = [], ending = Threw (Foreign e), connects = 1, reads = 0\<rparr>
                | Inr rs \<Rightarrow> read_loop h [] 0 rs))"

section \<open>Server-sent events on the wire\<close>

text \<open>
  The streams that the properties below speak about. A frame is a list of lines, the
  wire text of a frame is its lines joined by line feeds and closed by a blank line,
  and the wire text of a stream is its frames one after the other. In a well-formed
  stream no frame is empty and no line is empty or contains a line feed. The payloads
  of a list of lines are what follows \<open>data:\<close> on the lines with that prefix,
  trimmed.
\<close>

fun join_lines :: "jstring list \<Rightarrow> jstring" where
  "join_lines [] = []"
| "join_lines [l] = l"
| "join_lines (l # l' # ls) = l @ LF # join_lines (l' # ls)"

definition sse_wire :: "jstring list list \<Rightarrow> jstring" where
  "sse_wire fs = concat (map (\<lambda>f. join_lines f @ [LF, LF]) fs)"

definition well_formed_frames :: "jstring list list \<Rightarrow> bool" where
  "well_formed_frames fs = (\<forall>f \<in> set fs. f \<noteq> [] \<and> (\<forall>l \<in> set f. l \<noteq> [] \<and> LF \<notin> set l))"

definition data_payloads :: "jstring list \<Rightarrow> jstring list" where
  "data_payloads ls =
     map (\<lambda>l. js_trim (drop 5 l)) (filter (\<lambda>l. starts_with l (js ''data:'')) ls)"

text \<open>
  The loop of \<open>process_lines\<close> seen on the payloads alone; the proofs go through it.
\<close>

fun process_payloads :: "'n host \<Rightarrow> jstring list \<Rightarrow> 'n json list \<times> bool" where
  "process_payloads h [] = ([], False)"
| "process_payloads h (d # ds) =
     (if d = js ''[DONE]'' then ([], True)
      else (case JSON_parse h d of
              Inl m \<Rightarrow> process_payloads h ds
            | Inr v \<Rightarrow> (case process_payloads h ds of (evs, stop) \<Rightarrow> (v # evs, stop))))"

section \<open>A host for worked examples\<close>

text \<open>
  The repository's tests replace \<open>fetch\<close> by a mock. The examples below do the same
  with the built-ins: \<open>test_host\<close> parses the JSON texts and the numbers that the
  examples use, with integers for numbers, and rejects every other text. The examples
  pass only strings as error messages, so its string conversion is never reached.
\<close>

datatype test_number = NaN | Num int | Inf

definition test_parse :: "jstring \<Rightarrow> jstring + test_number json" where
  "test_parse t =
     (if t = js ''{\"a\":1}'' then Inr (JObj [(js ''a'', JNum (Num 1))])
      else if t = js ''{\"b\":2}'' then Inr (JObj [(js ''b'', JNum (Num 2))])
      else if t = js ''{}'' then Inr (JObj [])
      else if t = js ''{\"error\":{\"message\":\"bad key\"}}''
        then Inr (JObj [(js ''error'', JObj [(js ''message'', JStr (js ''bad key''))])])
      else if t = js ''{\"error\":\"Forbidden\"}''
        then Inr (JObj [(js ''error'', JStr (js ''Forbidden''))])
      else Inl (js ''Unexpected token''))"

definition test_parseFloat :: "jstring \<Rightarrow> test_number" where
  "test_parseFloat s =
     (if s = js ''2'' then Num 2
      else if s = js ''30'' then Num 30
      else NaN)"

text \<open>The number that a delay is, for the numbers of the examples.\<close>

fun test_millis :: "test_number delay \<Rightarrow> test_number" where
  "test_millis (Times1000 (Num i)) = Num (i * 1000)"
| "test_millis (Times1000 NaN) = NaN"
| "test_millis (Times1000 Inf) = Inf"
| "test_millis (Millis n) = Num (int n)"
| "test_millis InfiniteDelay = Inf"

definition test_host :: "test_number host" where
  "test_host =
     \<lparr>JSON_parse = test_parse, parseFloat = test_parseFloat,
      ToString = (\<lambda>v. Inl \<lparr>exn_name = Some (js ''TypeError''), exn_message = None,
                                exn_string = js ''TypeError''\<rparr>)\<rparr>"

definition test_client :: "nat \<Rightarrow> client" where
  "test_client n =
     \<lparr>apiKey = js ''k'', baseUrl = js ''https://api.waterlight.io'', timeout = 120000,
      maxRetries = n\<rparr>"

definition test_response :: "nat \<Rightarrow> (jstring \<rightharpoonup> jstring) \<Rightarrow> string \<Rightarrow> response" where
  "test_response st hdrs text = \<lparr>status = st, headers = hdrs, body = Inr (js text)\<rparr>"

definition test_abort :: js_exn where
  "test_abort =
     \<lparr>exn_name = Some (js ''AbortError''),
      exn_message = Some (js ''The operation was aborted.''),
      exn_string = js ''AbortError: The operation was aborted.''\<rparr>"

definition test_flood :: jstring where
  "test_flood = replicate (Suc MAX_SSE_BUFFER) 0x61"

section \<open>Properties of the request loop\<close>

lemmas test_defs = test_response_def test_client_def test_host_def test_parse_def
  test_parseFloat_def ok_def RETRYABLE_STATUS_def attempt_once_def retry_delay_def backoff_def
  res_json_def handleError_def error_msg_def message_string_def parse_retry_after_def
  SyntaxError_def js_def request_def request_loop.simps

lemma request_loop_Retry:
  "attempt_once h c attempt (net calls) = Retry d \<Longrightarrow>
   request_loop h c net attempt calls slept
     = request_loop h c net (Suc attempt) (Suc calls) (slept @ [d])"
  by (subst request_loop.simps) simp

lemma request_loop_Return:
  "attempt_once h c attempt (net calls) = Return v \<Longrightarrow>
   request_loop h c net attempt calls slept
     = \<lparr>result = Inr v, fetches = Suc calls, sleeps = slept\<rparr>"
  by (subst request_loop.simps) simp

lemma request_loop_Throw:
  "attempt_once h c attempt (net calls) = Throw e \<Longrightarrow>
   request_loop h c net attempt calls slept
     = \<lparr>result = Inl e, fetches = Suc calls, sleeps = slept\<rparr>"
  by (subst request_loop.simps) simp

lemma Retry_below_max:
  "attempt_once h c attempt outcome = Retry d \<Longrightarrow> attempt < maxRetries c"
  by (auto simp: attempt_once_def split: fetch_outcome.splits if_splits sum.splits)

lemma fetches_lower: "Suc calls \<le> fetches (request_loop h c net attempt calls slept)"
proof (induction h c net attempt calls slept rule: request_loop.induct)
  case (1 h c net attempt calls slept)
  show ?case
  proof (cases "attempt_once h c attempt (net calls)")
    case (Retry d)
    with "1.IH" [OF Retry] show ?thesis
      by (simp add: request_loop_Retry)
  next
    case (Return v)
    then show ?thesis by (simp add: request_loop_Return)
  next
    case (Throw e)
    then show ?thesis by (simp add: request_loop_Throw)
  qed
qed

lemma fetches_upper:
  "fetches (request_loop h c net attempt calls slept) \<le> Suc calls + (maxRetries c - attempt)"
proof (induction h c net attempt calls slept rule: request_loop.induct)
  case (1 h c net attempt calls slept)
  show ?case
  proof (cases "attempt_once h c attempt (net calls)")
    case (Retry d)
    then have "attempt < maxRetries c"
      by (rule Retry_below_max)
    with "1.IH" [OF Retry] Retry show ?thesis
      by (simp add: request_loop_Retry)
  next
    case (Return v)
    then show ?thesis by (simp add: request_loop_Return)
  next
    case (Throw e)
    then show ?thesis by (simp add: request_loop_Throw)
  qed
qed

lemma sleeps_prefix: "\<exists>ys. sleeps (request_loop h c net attempt calls slept) = slept @ ys"
proof (induction h c net attempt calls slept rule: request_loop.induct)
  case (1 h c net attempt calls slept)
  show ?case
  proof (cases "attempt_once h c attempt (net calls)")
    case (Retry d)
    with "1.IH" [OF Retry] show ?thesis
      by (auto simp: request_loop_Retry)
  next
    case (Return v)
    then show ?thesis by (simp add: request_loop_Return)
  next
    case (Throw e)
    then show ?thesis by (simp add: request_loop_Throw)
  qed
qed

text \<open>
  Every sleep is followed by one more fetch: a call that slept \<open>n\<close> times made
  \<open>n + 1\<close> requests.
\<close>

lemma fetches_sleeps:
  "fetches (request_loop h c net attempt calls slept) + length slept
     = Suc calls + length (sleeps (request_loop h c net attempt calls slept))"
proof (induction h c net attempt calls slept rule: request_loop.induct)
  case (1 h c net attempt calls slept)
  show ?case
  proof (cases "attempt_once h c attempt (net calls)")
    case (Retry d)
    with "1.IH" [OF Retry] show ?thesis
      by (simp add: request_loop_Retry)
  next
    case (Return v)
    then show ?thesis by (simp add: request_loop_Return)
  next
    case (Throw e)
    then show ?thesis by (simp add: request_loop_Throw)
  qed
qed

text \<open>
  C1. In any state of the loop (\<open>attempt\<close>, \<open>calls\<close>, \<open>slept\<close>), let the fetch resolve
  with a response that is not 2xx. When the status is one of 429, 500, 502, 503, 504
  and \<open>attempt < maxRetries\<close>, the call sleeps and goes on as the loop does from
  \<open>attempt + 1\<close> with the next fetch, and that fetch decides the call: a 2xx response
  with a JSON body is the value returned after two fetches, a rejection is the error
  of the \<open>catch\<close> clause. In every other case the call ends at this fetch with a typed
  error and without a sleep. So a further fetch is made exactly in the first case.
\<close>

theorem dispatcher_retries_iff:
  assumes "net calls = Resolves res" and "\<not> ok res"
  shows "(status res \<in> {429, 500, 502, 503, 504} \<and> attempt < maxRetries c \<longrightarrow>
            request_loop h c net attempt calls slept
              = request_loop h c net (Suc attempt) (Suc calls)
                  (slept @ [retry_delay h res attempt])
            \<and> (\<forall>res' v. net (Suc calls) = Resolves res' \<and> ok res' \<and> res_json h res' = Inr v
                  \<longrightarrow> request_loop h c net attempt calls slept
                        = \<lparr>result = Inr v, fetches = Suc (Suc calls),
                           sleeps = slept @ [retry_delay h res attempt]\<rparr>)
            \<and> (\<forall>e. net (Suc calls) = Rejects e
                  \<longrightarrow> request_loop h c net attempt calls slept
                        = \<lparr>result = Inl (on_catch (Foreign e)), fetches = Suc (Suc calls),
                           sleeps = slept @ [retry_delay h res attempt]\<rparr>))
         \<and> (\<not> (status res \<in> {429, 500, 502, 503, 504} \<and> attempt < maxRetries c)
              \<longrightarrow> (\<exists>e. request_loop h c net attempt calls slept
                        = \<lparr>result = Inl e, fetches = Suc calls, sleeps = slept\<rparr>))
         \<and> (Suc calls < fetches (request_loop h c net attempt calls slept))
             = (status res \<in> {429, 500, 502, 503, 504} \<and> attempt < maxRetries c)"
proof (cases "status res \<in> {429, 500, 502, 503, 504} \<and> attempt < maxRetries c")
  case True
  let ?d = "retry_delay h res attempt"
  have step: "attempt_once h c attempt (net calls) = Retry ?d"
    using True assms by (simp add: attempt_once_def RETRYABLE_STATUS_def)
  then have eq: "request_loop h c net attempt calls slept
                   = request_loop h c net (Suc attempt) (Suc calls) (slept @ [?d])"
    by (rule request_loop_Retry)
  have ret: "request_loop h c net attempt calls slept
               = \<lparr>result = Inr v, fetches = Suc (Suc calls), sleeps = slept @ [?d]\<rparr>"
    if "net (Suc calls) = Resolves res' \<and> ok res' \<and> res_json h res' = Inr v" for res' v
  proof -
    have "attempt_once h c (Suc attempt) (net (Suc calls)) = Return v"
      using that by (simp add: attempt_once_def)
    then show ?thesis
      unfolding eq by (rule request_loop_Return)
  qed
  have rej: "request_loop h c net attempt calls slept
               = \<lparr>result = Inl (on_catch (Foreign e)), fetches = Suc (Suc calls),
                  sleeps = slept @ [?d]\<rparr>"
    if "net (Suc calls) = Rejects e" for e
  proof -
    have "attempt_once h c (Suc attempt) (net (Suc calls)) = Throw (on_catch (Foreign e))"
      using that by (simp add: attempt_once_def)
    then show ?thesis
      unfolding eq by (rule request_loop_Throw)
  qed
  have "Suc (Suc calls)
          \<le> fetches (request_loop h c net (Suc attempt) (Suc calls) (slept @ [?d]))"
    by (rule fetches_lower)
  then have more: "Suc calls < fetches (request_loop h c net attempt calls slept)"
    unfolding eq by simp
  show ?thesis
    using True eq ret rej more by blast
next
  case False
  then obtain e where step: "attempt_once h c attempt (net calls) = Throw e"
    using assms by (auto simp: attempt_once_def RETRYABLE_STATUS_def)
  then have r: "request_loop h c net attempt calls slept
                  = \<lparr>result = Inl e, fetches = Suc calls, sleeps = slept\<rparr>"
    by (rule request_loop_Throw)
  then have "\<not> Suc calls < fetches (request_loop h c net attempt calls slept)"
    by simp
  with False r show ?thesis
    by blast
qed

theorem dispatcher_retries_iff_witness:
  "\<not> ok (test_response 503 Map.empty ''{}'')
   \<and> ok (test_response 200 Map.empty ''{\"a\":1}'')
   \<and> request_loop test_host (test_client 2)
        (\<lambda>k. if k = 0 then Resolves (test_response 503 Map.empty ''{}'')
              else Resolves (test_response 200 Map.empty ''{\"a\":1}'')) 0 0 []
       = \<lparr>result = Inr (JObj [(js ''a'', JNum (Num 1))]), fetches = 2,
          sleeps = [Millis 500]\<rparr>
   \<and> request_loop test_host (test_client 2)
        (\<lambda>k. if k = 0 then Resolves (test_response 503 Map.empty ''{}'')
              else Rejects test_abort) 0 0 []
       = \<lparr>result = Inl (APIError (js ''Request timed out'') (Some 408) None), fetches = 2,
          sleeps = [Millis 500]\<rparr>
   \<and> request_loop test_host (test_client 0)
        (\<lambda>k. if k = 0 then Resolves (test_response 503 Map.empty ''{}'')
              else Resolves (test_response 200 Map.empty ''{\"a\":1}'')) 0 0 []
       = \<lparr>result = Inl (APIError (js ''Request failed'') (Some 503) None), fetches = 1,
          sleeps = []\<rparr>
   \<and> request_loop test_host (test_client 3)
        (\<lambda>k. if k = 0 then Resolves (test_response 401 Map.empty ''{}'')
              else Resolves (test_response 200 Map.empty ''{\"a\":1}'')) 0 0 []
       = \<lparr>result = Inl (AuthenticationError (js ''Request failed'') None), fetches = 1,
          sleeps = []\<rparr>"
proof -
  let ?bad = "test_response 503 Map.empty ''{}''"
  let ?good = "test_response 200 Map.empty ''{\"a\":1}''"
  let ?net = "\<lambda>k::nat. if k = 0 then Resolves ?bad else Resolves ?good"
  let ?net' = "\<lambda>k::nat. if k = 0 then Resolves ?bad else Rejects test_abort"
  let ?net'' = "\<lambda>k::nat. if k = 0 then Resolves (test_response 401 Map.empty ''{}'')
                          else Resolves ?good"
  have bad: "\<not> ok ?bad" and good: "ok ?good"
    by (simp_all add: ok_def test_response_def)
  have json: "res_json test_host ?good = Inr (JObj [(js ''a'', JNum (Num 1))])"
    by (simp add: res_json_def test_response_def test_host_def test_parse_def js_def)
  have d: "retry_delay test_host ?bad 0 = Millis 500"
    by (simp add: retry_delay_def backoff_def test_response_def)
  have st: "status ?bad = 503" "status (test_response 401 Map.empty ''{}'') = 401"
    by (simp_all add: test_response_def)
  have cond: "status ?bad \<in> {429, 500, 502, 503, 504} \<and> 0 < maxRetries (test_client 2)"
    by (simp add: test_response_def test_client_def)
  have n0: "?net 0 = Resolves ?bad" and n1: "?net (Suc 0) = Resolves ?good"
    by simp_all
  have m0: "?net' 0 = Resolves ?bad" and m1: "?net' (Suc 0) = Rejects test_abort"
    by simp_all
  note T = dispatcher_retries_iff
    [where net = ?net and calls = 0 and res = ?bad and h = test_host
       and c = "test_client 2" and attempt = 0 and slept = "[]", OF n0 bad]
  have "request_loop test_host (test_client 2) ?net 0 0 []
          = \<lparr>result = Inr (JObj [(js ''a'', JNum (Num 1))]), fetches = Suc (Suc 0),
             sleeps = [] @ [retry_delay test_host ?bad 0]\<rparr>"
    using T cond n1 good json by blast
  then have a: "request_loop test_host (test_client 2) ?net 0 0 []
             = \<lparr>result = Inr (JObj [(js ''a'', JNum (Num 1))]), fetches = 2,
                sleeps = [Millis 500]\<rparr>"
    by (simp add: d)
  note T' = dispatcher_retries_iff
    [where net = ?net' and calls = 0 and res = ?bad and h = test_host
       and c = "test_client 2" and attempt = 0 and slept = "[]", OF m0 bad]
  have "request_loop test_host (test_client 2) ?net' 0 0 []
          = \<lparr>result = Inl (on_catch (Foreign test_abort)), fetches = Suc (Suc 0),
             sleeps = [] @ [retry_delay test_host ?bad 0]\<rparr>"
    using T' cond m1 by blast
  then have b: "request_loop test_host (test_client 2) ?net' 0 0 []
             = \<lparr>result = Inl (APIError (js ''Request timed out'') (Some 408) None),
                fetches = 2, sleeps = [Millis 500]\<rparr>"
    by (simp add: d test_abort_def)
  have c: "request_loop test_host (test_client 0) ?net 0 0 []
             = \<lparr>result = Inl (APIError (js ''Request failed'') (Some 503) None),
                fetches = 1, sleeps = []\<rparr>"
    by (simp add: test_defs)
  have e: "request_loop test_host (test_client 3) ?net'' 0 0 []
             = \<lparr>result = Inl (AuthenticationError (js ''Request failed'') None),
                fetches = 1, sleeps = []\<rparr>"
    by (simp add: test_defs)
  show ?thesis
    using bad good a b c e by simp
qed

text \<open>
  C2, as amended. When the loop retries at \<open>attempt\<close>, it sleeps and goes on from
  \<open>attempt + 1\<close>, and the argument of that sleep is the parsed value of the
  \<open>retry-after\<close> header times 1000 when the header is present and not empty; when the
  header is absent or empty and \<open>attempt\<close> is at most 1015, it is
  \<open>500 * 2 ^ attempt\<close> milliseconds.
\<close>

theorem retry_delay_selected:
  assumes "net calls = Resolves res" and "\<not> ok res"
      and "status res \<in> {429, 500, 502, 503, 504}" and "attempt < maxRetries c"
  shows "(\<forall>v. headers res (js ''retry-after'') = Some v \<and> v \<noteq> [] \<longrightarrow>
            request_loop h c net attempt calls slept
              = request_loop h c net (Suc attempt) (Suc calls)
                  (slept @ [Times1000 (parseFloat h v)])
            \<and> take (Suc (length slept)) (sleeps (request_loop h c net attempt calls slept))
                = slept @ [Times1000 (parseFloat h v)])
         \<and> ((headers res (js ''retry-after'') = None
              \<or> headers res (js ''retry-after'') = Some [])
             \<and> attempt \<le> 1015 \<longrightarrow>
            request_loop h c net attempt calls slept
              = request_loop h c net (Suc attempt) (Suc calls)
                  (slept @ [Millis (500 * 2 ^ attempt)])
            \<and> take (Suc (length slept)) (sleeps (request_loop h c net attempt calls slept))
                = slept @ [Millis (500 * 2 ^ attempt)])"
proof -
  let ?d = "retry_delay h res attempt"
  have step: "attempt_once h c attempt (net calls) = Retry ?d"
    using assms by (simp add: attempt_once_def RETRYABLE_STATUS_def)
  then have eq: "request_loop h c net attempt calls slept
                   = request_loop h c net (Suc attempt) (Suc calls) (slept @ [?d])"
    by (rule request_loop_Retry)
  obtain ys where "sleeps (request_loop h c net (Suc attempt) (Suc calls) (slept @ [?d]))
                     = (slept @ [?d]) @ ys"
    using sleeps_prefix by blast
  then have tk: "take (Suc (length slept)) (sleeps (request_loop h c net attempt calls slept))
                   = slept @ [?d]"
    unfolding eq by simp
  have hd: "?d = Times1000 (parseFloat h v)"
    if "headers res (js ''retry-after'') = Some v \<and> v \<noteq> []" for v
    using that by (simp add: retry_delay_def)
  have bo: "?d = Millis (500 * 2 ^ attempt)"
    if "(headers res (js ''retry-after'') = None
         \<or> headers res (js ''retry-after'') = Some []) \<and> attempt \<le> 1015"
    using that by (auto simp: retry_delay_def backoff_def)
  show ?thesis
    using eq tk hd bo by metis
qed

theorem retry_delay_selected_witness:
  "\<not> ok (test_response 429 [js ''retry-after'' \<mapsto> js ''2''] ''{}'')
   \<and> status (test_response 429 [js ''retry-after'' \<mapsto> js ''2''] ''{}'')
        \<in> {429, 500, 502, 503, 504}
   \<and> 0 < maxRetries (test_client 1)
   \<and> headers (test_response 429 [js ''retry-after'' \<mapsto> js ''2''] ''{}'') (js ''retry-after'')
       = Some (js ''2'')
   \<and> take (Suc (length ([] :: test_number delay list)))
        (sleeps (request_loop test_host (test_client 1)
           (\<lambda>k. Resolves (test_response 429 [js ''retry-after'' \<mapsto> js ''2''] ''{}'')) 0 0 []))
       = [Times1000 (Num 2)]
   \<and> \<not> ok (test_response 500 Map.empty ''{}'')
   \<and> headers (test_response 500 Map.empty ''{}'') (js ''retry-after'') = None
   \<and> (1 :: nat) \<le> 1015 \<and> 1 < maxRetries (test_client 2)
   \<and> take (Suc (length ([Millis 500] :: test_number delay list)))
        (sleeps (request_loop test_host (test_client 2)
           (\<lambda>k. Resolves (test_response 500 Map.empty ''{}'')) 1 1 [Millis 500]))
       = [Millis 500, Millis 1000]"
proof -
  let ?r = "test_response 429 [js ''retry-after'' \<mapsto> js ''2''] ''{}''"
  let ?r' = "test_response 500 Map.empty ''{}''"
  have r: "\<not> ok ?r" "status ?r \<in> {429, 500, 502, 503, 504}"
      "headers ?r (js ''retry-after'') = Some (js ''2'') \<and> js ''2'' \<noteq> []"
    by (simp_all add: ok_def test_response_def js_def)
  have r': "\<not> ok ?r'" "status ?r' \<in> {429, 500, 502, 503, 504}"
      "(headers ?r' (js ''retry-after'') = None \<or> headers ?r' (js ''retry-after'') = Some [])
       \<and> (1 :: nat) \<le> 1015"
    by (simp_all add: ok_def test_response_def)
  have m: "0 < maxRetries (test_client 1)" "1 < maxRetries (test_client 2)"
    by (simp_all add: test_client_def)
  have "take (Suc (length ([] :: test_number delay list)))
          (sleeps (request_loop test_host (test_client 1) (\<lambda>k. Resolves ?r) 0 0 []))
        = [] @ [Times1000 (parseFloat test_host (js ''2''))]"
    using retry_delay_selected
      [where net = "\<lambda>k. Resolves ?r" and calls = 0 and res = ?r and attempt = 0
         and c = "test_client 1" and h = test_host and slept = "[]",
       OF refl r(1) r(2) m(1), THEN conjunct1, rule_format, OF r(3), THEN conjunct2]
    by this
  then have a: "take (Suc (length ([] :: test_number delay list)))
          (sleeps (request_loop test_host (test_client 1) (\<lambda>k. Resolves ?r) 0 0 []))
        = [Times1000 (Num 2)]"
    by (simp add: test_host_def test_parseFloat_def js_def)
  have "take (Suc (length ([Millis 500] :: test_number delay list)))
          (sleeps (request_loop test_host (test_client 2) (\<lambda>k. Resolves ?r') 1 1
             [Millis 500]))
        = [Millis 500] @ [Millis (500 * 2 ^ 1)]"
    using retry_delay_selected
      [where net = "\<lambda>k. Resolves ?r'" and calls = 1 and res = ?r' and attempt = 1
         and c = "test_client 2" and h = test_host and slept = "[Millis 500]",
       OF refl r'(1) r'(2) m(2), THEN conjunct2, rule_format, OF r'(3), THEN conjunct2]
    by this
  then have b: "take (Suc (length ([Millis 500] :: test_number delay list)))
          (sleeps (request_loop test_host (test_client 2) (\<lambda>k. Resolves ?r') 1 1
             [Millis 500]))
        = [Millis 500, Millis 1000]"
    by simp
  have n: "headers ?r' (js ''retry-after'') = None"
    by (simp add: test_response_def)
  show ?thesis
    using r r' m a b n by simp
qed

text \<open>
  The claim as it was written fails for a header that is present with an empty value:
  the empty string is falsy, so the loop sleeps the backoff of 500 ms at attempt 0, while
  the product of the parsed header is \<open>NaN\<close>. It also fails from attempt 1016, a state
  that 1016 retries reach: the double \<open>500 * 2 ** 1016\<close> is \<open>Infinity\<close>.
\<close>

theorem retry_delay_counterexample:
  "headers (test_response 503 [js ''retry-after'' \<mapsto> []] ''{}'') (js ''retry-after'') = Some []
   \<and> sleeps (request test_host (test_client 1)
               (\<lambda>k. Resolves (test_response 503 [js ''retry-after'' \<mapsto> []] ''{}'')))
       = [Millis 500]
   \<and> test_millis (Millis 500) = Num 500
   \<and> test_millis (Times1000 (parseFloat test_host [])) = NaN
   \<and> Millis 500 \<noteq> Times1000 (parseFloat test_host [])
   \<and> sleeps (request_loop test_host (test_client 1017)
               (\<lambda>k. Resolves (test_response 503 Map.empty ''{}'')) 1016 0 [])
       = [InfiniteDelay]
   \<and> (InfiniteDelay :: test_number delay) \<noteq> Millis (500 * 2 ^ 1016)"
  by (simp add: test_defs)

text \<open>Without the header, attempt 0 sleeps 500 ms and attempt 1 sleeps 1000 ms.\<close>

lemma backoff_examples:
  "headers res (js ''retry-after'') = None \<Longrightarrow>
   retry_delay h res 0 = Millis 500 \<and> retry_delay h res 1 = Millis 1000"
  by (simp add: retry_delay_def backoff_def)

text \<open>
  The bound of the backoff: up to attempt 1015 the product is below \<open>2 ^ 1024\<close>, at
  attempt 1016 it is not, and from there the loop sleeps \<open>Infinity\<close>.
\<close>

lemma backoff_bound: "500 * 2 ^ 1015 < (2 :: nat) ^ 1024 \<and> (2 :: nat) ^ 1024 \<le> 500 * 2 ^ 1016"
proof -
  have a: "(2 :: nat) ^ 1024 = 512 * 2 ^ 1015"
    by (simp add: power_add [symmetric])
  have b: "(2 :: nat) ^ 1024 = 256 * 2 ^ 1016"
    by (simp add: power_add [symmetric])
  have "500 * 2 ^ 1015 < (512 :: nat) * 2 ^ 1015"
    by simp
  moreover have "(256 :: nat) * 2 ^ 1016 \<le> 500 * 2 ^ 1016"
    by simp
  ultimately show ?thesis
    using a b by simp
qed

lemma backoff_overflow:
  assumes "net calls = Resolves res" and "\<not> ok res"
      and "status res \<in> {429, 500, 502, 503, 504}" and "attempt < maxRetries c"
      and "headers res (js ''retry-after'') = None \<or> headers res (js ''retry-after'') = Some []"
      and "1015 < attempt"
  shows "request_loop h c net attempt calls slept
           = request_loop h c net (Suc attempt) (Suc calls) (slept @ [InfiniteDelay])"
proof -
  have "retry_delay h res attempt = InfiniteDelay"
    using assms(5,6) by (auto simp: retry_delay_def backoff_def)
  then have "attempt_once h c attempt (net calls) = Retry InfiniteDelay"
    using assms(1-4) by (simp add: attempt_once_def RETRYABLE_STATUS_def)
  then show ?thesis
    by (rule request_loop_Retry)
qed

text \<open>
  C3. \<open>request_loop\<close> is a total function: its termination is proved from the measure
  \<open>maxRetries - attempt\<close>, so every call returns a result or raises. With
  \<open>maxRetries = N\<close> it makes at most \<open>N + 1\<close> calls of \<open>fetch\<close>, whatever the network
  answers.
\<close>

theorem attempts_bounded: "fetches (request h c net) \<le> maxRetries c + 1"
  using fetches_upper [of h c net 0 0 "[]"] by (simp add: request_def)

theorem attempts_bounded_witness:
  "fetches (request test_host (test_client 2)
              (\<lambda>k. Resolves (test_response 503 Map.empty ''{}''))) = 3
   \<and> fetches (request test_host (test_client 2)
              (\<lambda>k. Resolves (test_response 503 Map.empty ''{}'')))
       \<le> maxRetries (test_client 2) + 1"
  using attempts_bounded
    [of test_host "test_client 2" "\<lambda>k. Resolves (test_response 503 Map.empty ''{}'')"]
  by (simp add: test_defs)

section \<open>Properties of the error classification\<close>

lemma get_prop_Some_object: "get_prop e k = Some v \<Longrightarrow> typeof_object e"
  by (cases e) simp_all

lemma error_msg_nested:
  "get_prop d (js ''error'') = Some e \<Longrightarrow> get_prop e (js ''message'') = Some (JStr m)
   \<Longrightarrow> error_msg d = JStr m"
  by (simp add: error_msg_def get_prop_Some_object)

lemma error_msg_string:
  "get_prop d (js ''error'') = Some (JStr m) \<Longrightarrow> error_msg d = JStr m"
  by (simp add: error_msg_def)

lemma error_msg_absent:
  "get_prop d (js ''error'') = None \<Longrightarrow> error_msg d = JStr (js ''Request failed'')"
  by (simp add: error_msg_def)

text \<open>The value passed to the constructor is never null.\<close>

lemma error_msg_not_null: "error_msg d \<noteq> JNull"
  by (auto simp: error_msg_def Let_def js_def split: option.splits json.splits)

lemma handleError_string:
  "message_string h (error_msg d) = Inr m \<Longrightarrow>
   handleError h st d hdrs =
     Typed (if st = 401 then AuthenticationError m (hdrs (js ''x-request-id''))
            else if st = 429 then
              RateLimitError m (parse_retry_after h (hdrs (js ''retry-after'')))
                (hdrs (js ''x-request-id''))
            else if st = 402 then InsufficientCreditsError m (hdrs (js ''x-request-id''))
            else APIError m (Some st) (hdrs (js ''x-request-id'')))"
  by (simp add: handleError_def)

text \<open>
  C4, as amended. A response that is not 2xx and is not retried ends the call with the
  error selected by its status: 401 the authentication error, 429 the rate-limit error,
  402 the insufficient-credits error, any other status the API error with that status.
  The rate-limit error carries the parsed \<open>retry-after\<close> header when the header is
  present and not empty, and no value when it is absent or empty. The message \<open>m\<close> is
  the string \<open>error.message\<close> of the JSON body, or \<open>error\<close> itself when that is a
  string, or \<open>Request failed\<close> when the body has no \<open>error\<close> or cannot be read as
  JSON; in general it is the string that the constructor makes of the value picked
  from the body, whenever that conversion succeeds. Each error carries the
  \<open>x-request-id\<close> header.
\<close>

theorem typed_error_by_status:
  assumes "net calls = Resolves res" and "\<not> ok res"
      and "\<not> (status res \<in> {429, 500, 502, 503, 504} \<and> attempt < maxRetries c)"
      and "(\<exists>d e. res_json h res = Inr d \<and> get_prop d (js ''error'') = Some e
                   \<and> get_prop e (js ''message'') = Some (JStr m))
           \<or> (\<exists>d. res_json h res = Inr d \<and> get_prop d (js ''error'') = Some (JStr m))
           \<or> (m = js ''Request failed''
               \<and> ((\<exists>d. res_json h res = Inr d \<and> get_prop d (js ''error'') = None)
                    \<or> (\<exists>e. res_json h res = Inl e)))
           \<or> message_string h
                (error_msg (case res_json h res of Inl x \<Rightarrow> JObj [] | Inr d \<Rightarrow> d)) = Inr m"
  shows "request_loop h c net attempt calls slept
           = \<lparr>result = Inl
                (if status res = 401
                   then AuthenticationError m (headers res (js ''x-request-id''))
                 else if status res = 429
                   then RateLimitError m
                          (case headers res (js ''retry-after'') of
                             None \<Rightarrow> None
                           | Some v \<Rightarrow> if v \<noteq> [] then Some (parseFloat h v) else None)
                          (headers res (js ''x-request-id''))
                 else if status res = 402
                   then InsufficientCreditsError m (headers res (js ''x-request-id''))
                 else APIError m (Some (status res)) (headers res (js ''x-request-id''))),
              fetches = Suc calls, sleeps = slept\<rparr>"
proof -
  let ?data = "case res_json h res of Inl e \<Rightarrow> JObj [] | Inr d \<Rightarrow> d"
  have "message_string h (error_msg ?data) = Inr m"
    using assms(4)
    by (auto simp: error_msg_nested error_msg_string error_msg_absent message_string_def)
  then have "handleError h (status res) ?data (headers res) =
     Typed (if status res = 401 then AuthenticationError m (headers res (js ''x-request-id''))
            else if status res = 429 then
              RateLimitError m (parse_retry_after h (headers res (js ''retry-after'')))
                (headers res (js ''x-request-id''))
            else if status res = 402
              then InsufficientCreditsError m (headers res (js ''x-request-id''))
            else APIError m (Some (status res)) (headers res (js ''x-request-id'')))"
    by (rule handleError_string)
  with assms(1-3) have "attempt_once h c attempt (net calls) = Throw
          (if status res = 401 then AuthenticationError m (headers res (js ''x-request-id''))
            else if status res = 429 then
              RateLimitError m (parse_retry_after h (headers res (js ''retry-after'')))
                (headers res (js ''x-request-id''))
            else if status res = 402
              then InsufficientCreditsError m (headers res (js ''x-request-id''))
            else APIError m (Some (status res)) (headers res (js ''x-request-id'')))"
    by (simp add: attempt_once_def RETRYABLE_STATUS_def)
  then show ?thesis
    by (simp add: request_loop_Throw parse_retry_after_def)
qed

theorem typed_error_by_status_witness:
  "(\<lambda>k. Resolves (test_response 401 [js ''x-request-id'' \<mapsto> js ''req-xyz-123'']
                     ''{\"error\":{\"message\":\"bad key\"}}'')) 0
     = Resolves (test_response 401 [js ''x-request-id'' \<mapsto> js ''req-xyz-123'']
                   ''{\"error\":{\"message\":\"bad key\"}}'')
   \<and> \<not> ok (test_response 401 [js ''x-request-id'' \<mapsto> js ''req-xyz-123'']
                ''{\"error\":{\"message\":\"bad key\"}}'')
   \<and> request_loop test_host (test_client 3)
         (\<lambda>k. Resolves (test_response 401 [js ''x-request-id'' \<mapsto> js ''req-xyz-123'']
                           ''{\"error\":{\"message\":\"bad key\"}}'')) 0 0 []
       = \<lparr>result = Inl (AuthenticationError (js ''bad key'') (Some (js ''req-xyz-123''))),
          fetches = Suc 0, sleeps = []\<rparr>"
  using typed_error_by_status
    [of "\<lambda>k. Resolves (test_response 401 [js ''x-request-id'' \<mapsto> js ''req-xyz-123'']
                          ''{\"error\":{\"message\":\"bad key\"}}'')" 0
        "test_response 401 [js ''x-request-id'' \<mapsto> js ''req-xyz-123'']
           ''{\"error\":{\"message\":\"bad key\"}}''"
        0 "test_client 3" test_host "js ''bad key''" "[]"]
  by (simp add: ok_def test_response_def test_client_def test_host_def test_parse_def
        res_json_def js_def)

text \<open>
  The claim as it was written fails for a 429 whose \<open>retry-after\<close> header is present
  with an empty value: the error carries no value, not the parsed header.
\<close>

theorem rate_limit_counterexample:
  "headers (test_response 429 [js ''retry-after'' \<mapsto> []] ''{}'') (js ''retry-after'') = Some []
   \<and> result (request test_host (test_client 0)
               (\<lambda>k. Resolves (test_response 429 [js ''retry-after'' \<mapsto> []] ''{}'')))
       = Inl (RateLimitError (js ''Request failed'') None None)
   \<and> result (request test_host (test_client 0)
               (\<lambda>k. Resolves (test_response 429 [js ''retry-after'' \<mapsto> []] ''{}'')))
       \<noteq> Inl (RateLimitError (js ''Request failed'') (Some (parseFloat test_host [])) None)"
  by (simp add: test_defs)

text \<open>
  What the amended C4 leaves out: when the constructor cannot convert the message, its
  exception reaches the \<open>catch\<close> clause like any foreign one.
\<close>

lemma message_conversion_failure:
  assumes "net calls = Resolves res" and "\<not> ok res"
      and "\<not> (status res \<in> {429, 500, 502, 503, 504} \<and> attempt < maxRetries c)"
      and "message_string h
             (error_msg (case res_json h res of Inl x \<Rightarrow> JObj [] | Inr d \<Rightarrow> d)) = Inl e"
  shows "request_loop h c net attempt calls slept
           = \<lparr>result = Inl (on_catch (Foreign e)), fetches = Suc calls, sleeps = slept\<rparr>"
proof -
  have "attempt_once h c attempt (net calls) = Throw (on_catch (Foreign e))"
    using assms by (simp add: attempt_once_def RETRYABLE_STATUS_def handleError_def)
  then show ?thesis
    by (rule request_loop_Throw)
qed

text \<open>
  C5. When \<open>fetch\<close> rejects, the call ends at once: with the API error of status 408
  and message \<open>Request timed out\<close> when the rejection is the abort of the timer (its
  name is \<open>AbortError\<close>), and otherwise with the API error of status 0 whose message is
  \<open>Network error: \<close> followed by the message of the rejection (or the rejection as a
  string when it has none). A typed error thrown inside the \<open>try\<close> block, as by
  \<open>handleError\<close>, is the error of the call, unchanged.
\<close>

theorem transport_failure:
  "(net calls = Rejects e \<longrightarrow>
      request_loop h c net attempt calls slept
        = \<lparr>result = Inl (if exn_name e = Some (js ''AbortError'')
                         then APIError (js ''Request timed out'') (Some 408) None
                         else APIError
                                (js ''Network error: ''
                                   @ (case exn_message e of Some m \<Rightarrow> m | None \<Rightarrow> exn_string e))
                                (Some 0) None),
           fetches = Suc calls, sleeps = slept\<rparr>)
   \<and> (net calls = Resolves res \<and> \<not> ok res
        \<and> \<not> (status res \<in> {429, 500, 502, 503, 504} \<and> attempt < maxRetries c)
        \<and> handleError h (status res)
             (case res_json h res of Inl x \<Rightarrow> JObj [] | Inr d \<Rightarrow> d) (headers res) = Typed w
      \<longrightarrow> request_loop h c net attempt calls slept
            = \<lparr>result = Inl w, fetches = Suc calls, sleeps = slept\<rparr>)"
proof (intro conjI impI)
  assume "net calls = Rejects e"
  then have "attempt_once h c attempt (net calls) = Throw (on_catch (Foreign e))"
    by (simp add: attempt_once_def)
  then show "request_loop h c net attempt calls slept
        = \<lparr>result = Inl (if exn_name e = Some (js ''AbortError'')
                         then APIError (js ''Request timed out'') (Some 408) None
                         else APIError
                                (js ''Network error: ''
                                   @ (case exn_message e of Some m \<Rightarrow> m | None \<Rightarrow> exn_string e))
                                (Some 0) None),
           fetches = Suc calls, sleeps = slept\<rparr>"
    by (simp add: request_loop_Throw)
next
  assume "net calls = Resolves res \<and> \<not> ok res
        \<and> \<not> (status res \<in> {429, 500, 502, 503, 504} \<and> attempt < maxRetries c)
        \<and> handleError h (status res)
             (case res_json h res of Inl x \<Rightarrow> JObj [] | Inr d \<Rightarrow> d) (headers res) = Typed w"
  then have "attempt_once h c attempt (net calls) = Throw w"
    by (simp add: attempt_once_def RETRYABLE_STATUS_def)
  then show "request_loop h c net attempt calls slept
            = \<lparr>result = Inl w, fetches = Suc calls, sleeps = slept\<rparr>"
    by (simp add: request_loop_Throw)
qed

theorem transport_failure_witness:
  "(\<lambda>k. Rejects test_abort) 0 = Rejects test_abort
   \<and> request_loop test_host (test_client 2) (\<lambda>k. Rejects test_abort) 0 0 []
       = \<lparr>result = Inl (APIError (js ''Request timed out'') (Some 408) None),
          fetches = Suc 0, sleeps = []\<rparr>
   \<and> \<not> ok (test_response 403 Map.empty ''{\"error\":\"Forbidden\"}'')
   \<and> handleError test_host 403 (JObj [(js ''error'', JStr (js ''Forbidden''))]) Map.empty
       = Typed (APIError (js ''Forbidden'') (Some 403) None)
   \<and> request_loop test_host (test_client 2)
         (\<lambda>k. Resolves (test_response 403 Map.empty ''{\"error\":\"Forbidden\"}'')) 0 0 []
       = \<lparr>result = Inl (APIError (js ''Forbidden'') (Some 403) None),
          fetches = Suc 0, sleeps = []\<rparr>"
  using transport_failure
    [of "\<lambda>k. Rejects test_abort" 0 test_abort test_host "test_client 2" 0 "[]"]
    transport_failure
    [where net = "\<lambda>k. Resolves (test_response 403 Map.empty ''{\"error\":\"Forbidden\"}'')"
       and calls = 0 and h = test_host and c = "test_client 2" and attempt = 0
       and slept = "[]" and res = "test_response 403 Map.empty ''{\"error\":\"Forbidden\"}''"
       and w = "APIError (js ''Forbidden'') (Some 403) None"]
  by (simp add: test_abort_def ok_def test_response_def test_host_def test_parse_def
        res_json_def handleError_def error_msg_def message_string_def js_def)

text \<open>
  C10. A 2xx response whose body is not JSON does not return a value: \<open>res.json()\<close>
  rejects with the \<open>SyntaxError\<close> of \<open>JSON.parse\<close>, the \<open>catch\<close> clause treats it as
  any other foreign exception, and the call ends with the API error of status 0 whose
  message is \<open>Network error: \<close> followed by the parser's message.
\<close>

theorem invalid_json_on_success:
  assumes "net calls = Resolves res" and "ok res"
      and "body res = Inr t" and "JSON_parse h t = Inl m"
  shows "request_loop h c net attempt calls slept
           = \<lparr>result = Inl (APIError (js ''Network error: '' @ m) (Some 0) None),
              fetches = Suc calls, sleeps = slept\<rparr>"
proof -
  have "attempt_once h c attempt (net calls)
          = Throw (APIError (js ''Network error: '' @ m) (Some 0) None)"
    using assms by (simp add: attempt_once_def res_json_def SyntaxError_def js_def)
  then show ?thesis
    by (simp add: request_loop_Throw)
qed

theorem invalid_json_on_success_witness:
  "(\<lambda>k. Resolves (test_response 200 Map.empty ''{invalid json'')) 0
     = Resolves (test_response 200 Map.empty ''{invalid json'')
   \<and> ok (test_response 200 Map.empty ''{invalid json'')
   \<and> body (test_response 200 Map.empty ''{invalid json'') = Inr (js ''{invalid json'')
   \<and> JSON_parse test_host (js ''{invalid json'') = Inl (js ''Unexpected token'')
   \<and> request_loop test_host (test_client 2)
         (\<lambda>k. Resolves (test_response 200 Map.empty ''{invalid json'')) 0 0 []
       = \<lparr>result = Inl (APIError (js ''Network error: Unexpected token'') (Some 0) None),
          fetches = Suc 0, sleeps = []\<rparr>"
  using invalid_json_on_success
    [of "\<lambda>k. Resolves (test_response 200 Map.empty ''{invalid json'')" 0
        "test_response 200 Map.empty ''{invalid json''" "js ''{invalid json''" test_host
        "js ''Unexpected token''" "test_client 2" 0 "[]"]
  by (simp add: ok_def test_response_def test_host_def test_parse_def js_def)

section \<open>Properties of the event decoder\<close>

lemma take_eq_length: "take (length n) s = n \<Longrightarrow> length n \<le> length s"
  by (drule arg_cong [where f = length]) simp

lemma take_append_within: "k \<le> length s \<Longrightarrow> take k (s @ t) = take k s"
  by simp

lemma index_of_Some_le: "index_of n s = Some i \<Longrightarrow> i + length n \<le> length s"
proof (induction s arbitrary: i)
  case Nil
  then show ?case by (auto split: if_splits)
next
  case (Cons c cs)
  show ?case
  proof (cases "take (length n) (c # cs) = n")
    case True
    then have "length n \<le> length (c # cs)"
      by (rule take_eq_length)
    with True Cons.prems show ?thesis by simp
  next
    case False
    with Cons.prems obtain j where "index_of n cs = Some j" "i = Suc j"
      by auto
    with Cons.IH show ?thesis by fastforce
  qed
qed

lemma index_of_append: "index_of n s = Some i \<Longrightarrow> index_of n (s @ t) = Some i"
proof (induction s arbitrary: i)
  case Nil
  then show ?case by (cases t) (auto split: if_splits)
next
  case (Cons c cs)
  show ?case
  proof (cases "take (length n) (c # cs) = n")
    case True
    then have "length n \<le> length (c # cs)"
      by (rule take_eq_length)
    then have "take (length n) ((c # cs) @ t) = take (length n) (c # cs)"
      by (rule take_append_within)
    with True Cons.prems show ?thesis by simp
  next
    case False
    with Cons.prems obtain j where j: "index_of n cs = Some j" "i = Suc j"
      by auto
    then have "length n \<le> length (c # cs)"
      using index_of_Some_le by fastforce
    then have "take (length n) ((c # cs) @ t) = take (length n) (c # cs)"
      by (rule take_append_within)
    with False j Cons.IH show ?thesis by simp
  qed
qed

lemma index_of_append_None: "index_of n (s @ t) = None \<Longrightarrow> index_of n s = None"
  using index_of_append by (cases "index_of n s") fastforce+

lemma process_buffer_length:
  "process_buffer h b = (evs, stop, left) \<Longrightarrow> length left \<le> length b"
proof (induction h b arbitrary: evs stop left rule: process_buffer.induct)
  case (1 h buffer)
  show ?case
  proof (cases "index_of [LF, LF] buffer")
    case None
    with "1.prems" show ?thesis by (simp add: process_buffer.simps)
  next
    case (Some i)
    obtain e s where pl: "process_lines h (js_split LF (take i buffer)) = (e, s)"
      by (cases "process_lines h (js_split LF (take i buffer))")
    show ?thesis
    proof (cases s)
      case True
      with Some pl "1.prems" show ?thesis by (auto simp add: process_buffer.simps)
    next
      case False
      obtain e' s' l' where pb: "process_buffer h (drop (i + 2) buffer) = (e', s', l')"
        by (cases "process_buffer h (drop (i + 2) buffer)")
      from "1.IH" [OF Some pl [symmetric] _ pb] False
      have "length l' \<le> length (drop (i + 2) buffer)" by simp
      with Some pl False pb "1.prems" show ?thesis
        by (simp add: process_buffer.simps)
    qed
  qed
qed

lemma process_buffer_no_delimiter:
  "process_buffer h b = (evs, False, left) \<Longrightarrow> index_of [LF, LF] left = None"
proof (induction h b arbitrary: evs left rule: process_buffer.induct)
  case (1 h buffer)
  show ?case
  proof (cases "index_of [LF, LF] buffer")
    case None
    with "1.prems" show ?thesis by (simp add: process_buffer.simps)
  next
    case (Some i)
    obtain e s where pl: "process_lines h (js_split LF (take i buffer)) = (e, s)"
      by (cases "process_lines h (js_split LF (take i buffer))")
    show ?thesis
    proof (cases s)
      case True
      with Some pl "1.prems" show ?thesis by (simp add: process_buffer.simps)
    next
      case False
      obtain e' s' l' where pb: "process_buffer h (drop (i + 2) buffer) = (e', s', l')"
        by (cases "process_buffer h (drop (i + 2) buffer)")
      with Some pl False "1.prems" have "s' = False" "l' = left"
        by (simp_all add: process_buffer.simps)
      with "1.IH" [OF Some pl [symmetric] _ ] pb False show ?thesis by simp
    qed
  qed
qed

lemma process_buffer_append:
  "process_buffer h b = (evs, stop, left) \<Longrightarrow>
   process_buffer h (b @ x) =
     (if stop then (evs, True, left @ x)
      else (case process_buffer h (left @ x) of (evs', r) \<Rightarrow> (evs @ evs', r)))"
proof (induction h b arbitrary: evs stop left rule: process_buffer.induct)
  case (1 h buffer)
  show ?case
  proof (cases "index_of [LF, LF] buffer")
    case None
    with "1.prems" show ?thesis by (auto simp add: process_buffer.simps)
  next
    case (Some i)
    then have le: "i + 2 \<le> length buffer"
      using index_of_Some_le by fastforce
    have ix: "index_of [LF, LF] (buffer @ x) = Some i"
      using Some by (rule index_of_append)
    obtain e s where pl: "process_lines h (js_split LF (take i buffer)) = (e, s)"
      by (cases "process_lines h (js_split LF (take i buffer))")
    show ?thesis
    proof (cases s)
      case True
      with Some pl "1.prems" le ix show ?thesis
        by (subst process_buffer.simps) (auto simp add: process_buffer.simps)
    next
      case False
      obtain e' s' l' where pb: "process_buffer h (drop (i + 2) buffer) = (e', s', l')"
        by (cases "process_buffer h (drop (i + 2) buffer)")
      from "1.IH" [OF Some pl [symmetric] _ pb] False
      have ih: "process_buffer h (drop (i + 2) buffer @ x) =
                  (if s' then (e', True, l' @ x)
                   else (case process_buffer h (l' @ x) of (evs', r) \<Rightarrow> (e' @ evs', r)))"
        by simp
      from Some pl False pb "1.prems" have eq: "evs = e @ e'" "stop = s'" "left = l'"
        by (simp_all add: process_buffer.simps)
      show ?thesis
        using ix le pl False ih eq
        by (subst process_buffer.simps) (auto split: prod.splits)
    qed
  qed
qed

lemma index_of_skip:
  "LF \<notin> set l \<Longrightarrow> index_of [LF, LF] (l @ r) = map_option (\<lambda>i. length l + i) (index_of [LF, LF] r)"
proof (induction l)
  case Nil
  then show ?case by (simp add: option.map_ident)
next
  case (Cons c l)
  then show ?case
    by (cases "index_of [LF, LF] r") (auto simp: option.map_comp comp_def)
qed

lemma js_split_skip:
  "LF \<notin> set l \<Longrightarrow> js_split LF (l @ LF # r) = l # js_split LF r"
  by (induction l) auto

lemma js_split_line: "LF \<notin> set l \<Longrightarrow> js_split LF l = [l]"
  by (induction l) auto

lemma js_split_join:
  "f \<noteq> [] \<Longrightarrow> \<forall>l \<in> set f. LF \<notin> set l \<Longrightarrow> js_split LF (join_lines f) = f"
  by (induction f rule: join_lines.induct) (auto simp: js_split_line js_split_skip)

lemma join_lines_hd:
  "f \<noteq> [] \<Longrightarrow> \<forall>l \<in> set f. l \<noteq> [] \<and> LF \<notin> set l \<Longrightarrow>
   \<exists>c t. join_lines f = c # t \<and> c \<noteq> LF"
  by (induction f rule: join_lines.induct) (auto simp: neq_Nil_conv)

lemma index_of_join:
  "f \<noteq> [] \<Longrightarrow> \<forall>l \<in> set f. l \<noteq> [] \<and> LF \<notin> set l \<Longrightarrow>
   index_of [LF, LF] (join_lines f @ LF # LF # r) = Some (length (join_lines f))"
proof (induction f rule: join_lines.induct)
  case 1
  then show ?case by simp
next
  case (2 l)
  then show ?case by (simp add: index_of_skip)
next
  case (3 l l' ls)
  then obtain c t where ct: "join_lines (l' # ls) = c # t" "c \<noteq> LF"
    using join_lines_hd [of "l' # ls"] by auto
  from 3 have ih: "index_of [LF, LF] (join_lines (l' # ls) @ LF # LF # r)
                     = Some (length (join_lines (l' # ls)))"
    by simp
  have "index_of [LF, LF] (LF # join_lines (l' # ls) @ LF # LF # r)
          = Some (Suc (length (join_lines (l' # ls))))"
    using ih ct by simp
  moreover have "LF \<notin> set l" using 3 by simp
  ultimately show ?case
    using index_of_skip [of l "LF # join_lines (l' # ls) @ LF # LF # r"] by simp
qed

lemma process_lines_append:
  "process_lines h (a @ b) =
     (case process_lines h a of
        (e, True) \<Rightarrow> (e, True)
      | (e, False) \<Rightarrow> (case process_lines h b of (e', s) \<Rightarrow> (e @ e', s)))"
  by (induction a) (auto simp: Let_def split: sum.splits prod.splits bool.splits)

lemma process_buffer_None:
  "index_of [LF, LF] b = None \<Longrightarrow> process_buffer h b = ([], False, b)"
  by (simp add: process_buffer.simps)

lemma process_buffer_frame:
  assumes "f \<noteq> []" and "\<forall>l \<in> set f. l \<noteq> [] \<and> LF \<notin> set l"
  shows "process_buffer h (join_lines f @ LF # LF # r) =
           (case process_lines h f of
              (e, True) \<Rightarrow> (e, True, r)
            | (e, False) \<Rightarrow> (case process_buffer h r of (e', x) \<Rightarrow> (e @ e', x)))"
proof -
  have ix: "index_of [LF, LF] (join_lines f @ LF # LF # r) = Some (length (join_lines f))"
    using assms by (rule index_of_join)
  have sp: "js_split LF (join_lines f) = f"
    using assms by (simp add: js_split_join)
  show ?thesis
    by (subst process_buffer.simps) (simp add: ix sp)
qed

lemma process_buffer_wire:
  "well_formed_frames fs \<Longrightarrow>
   \<exists>left. process_buffer h (sse_wire fs @ tail) =
     (case process_lines h (concat fs) of
        (e, True) \<Rightarrow> (e, True, left)
      | (e, False) \<Rightarrow> (case process_buffer h tail of (e', x) \<Rightarrow> (e @ e', x)))"
proof (induction fs)
  case Nil
  then show ?case by (simp add: sse_wire_def)
next
  case (Cons f fs)
  then have wf: "f \<noteq> []" "\<forall>l \<in> set f. l \<noteq> [] \<and> LF \<notin> set l" "well_formed_frames fs"
    by (auto simp: well_formed_frames_def)
  have w: "sse_wire (f # fs) @ tail = join_lines f @ LF # LF # (sse_wire fs @ tail)"
    by (simp add: sse_wire_def)
  obtain left where ih: "process_buffer h (sse_wire fs @ tail) =
     (case process_lines h (concat fs) of
        (e, True) \<Rightarrow> (e, True, left)
      | (e, False) \<Rightarrow> (case process_buffer h tail of (e', x) \<Rightarrow> (e @ e', x)))"
    using Cons.IH wf(3) by blast
  obtain e s where pf: "process_lines h f = (e, s)"
    by (cases "process_lines h f")
  obtain e2 s2 where pr: "process_lines h (concat fs) = (e2, s2)"
    by (cases "process_lines h (concat fs)")
  obtain e3 s3 l3 where pt: "process_buffer h tail = (e3, s3, l3)"
    by (cases "process_buffer h tail")
  have step: "process_buffer h (sse_wire (f # fs) @ tail) =
           (case process_lines h f of
              (e, True) \<Rightarrow> (e, True, sse_wire fs @ tail)
            | (e, False) \<Rightarrow>
                (case process_buffer h (sse_wire fs @ tail) of (e', x) \<Rightarrow> (e @ e', x)))"
    unfolding w using wf(1,2) by (rule process_buffer_frame)
  show ?case
  proof (cases s)
    case True
    with pf step show ?thesis
      by (simp add: process_lines_append)
  next
    case False
    show ?thesis
    proof (cases s2)
      case True
      with False pf pr step ih show ?thesis
        by (simp add: process_lines_append)
    next
      case s2: False
      with False pf pr pt step ih show ?thesis
        by (simp add: process_lines_append)
    qed
  qed
qed

lemma read_loop_chunks:
  assumes "index_of [LF, LF] buf = None"
      and "length (buf @ concat cs) \<le> MAX_SSE_BUFFER"
      and "process_buffer h (buf @ concat cs) = (evs, stop, left)"
  shows "if stop
         then events (read_loop h buf n (map Chunk cs @ rest)) = evs
              \<and> ending (read_loop h buf n (map Chunk cs @ rest)) = Returned
              \<and> reads (read_loop h buf n (map Chunk cs @ rest)) \<le> n + length cs
         else read_loop h buf n (map Chunk cs @ rest)
                = (read_loop h left (n + length cs) rest)
                    \<lparr>events := evs @ events (read_loop h left (n + length cs) rest)\<rparr>"
  using assms
proof (induction cs arbitrary: buf n evs left)
  case Nil
  then show ?case by (simp add: process_buffer_None)
next
  case (Cons c cs)
  obtain e1 s1 l1 where p1: "process_buffer h (buf @ c) = (e1, s1, l1)"
    by (cases "process_buffer h (buf @ c)")
  have len1: "length (buf @ c) \<le> MAX_SSE_BUFFER"
    using Cons.prems(2) by simp
  have app: "process_buffer h ((buf @ c) @ concat cs) =
     (if s1 then (e1, True, l1 @ concat cs)
      else (case process_buffer h (l1 @ concat cs) of (evs', r) \<Rightarrow> (e1 @ evs', r)))"
    using p1 by (rule process_buffer_append)
  show ?case
  proof (cases s1)
    case True
    with app Cons.prems(3) have "stop" "evs = e1" by simp_all
    moreover have "on_chunk h buf c = Stop e1"
      using p1 True len1 by (simp add: on_chunk_def)
    ultimately show ?thesis by simp
  next
    case False
    obtain e2 where p2: "process_buffer h (l1 @ concat cs) = (e2, stop, left)" "evs = e1 @ e2"
      using app False Cons.prems(3)
      by (cases "process_buffer h (l1 @ concat cs)") auto
    have "process_buffer h (buf @ c) = (e1, False, l1)"
      using p1 False by simp
    then have nd: "index_of [LF, LF] l1 = None"
      by (rule process_buffer_no_delimiter)
    have "length l1 \<le> length (buf @ c)"
      using p1 by (rule process_buffer_length)
    then have len2: "length (l1 @ concat cs) \<le> MAX_SSE_BUFFER"
      using Cons.prems(2) by simp
    have oc: "on_chunk h buf c = Continue e1 l1"
      using p1 False len1 by (simp add: on_chunk_def)
    note ih = Cons.IH [OF nd len2 p2(1), of "Suc n"]
    show ?thesis
    proof (cases stop)
      case True
      with ih oc p2(2) show ?thesis by (simp add: Let_def)
    next
      case False
      with ih oc p2(2) show ?thesis by (simp add: Let_def)
    qed
  qed
qed

lemma read_loop_overflow:
  assumes "index_of [LF, LF] (buf @ concat cs) = None"
      and "length buf \<le> MAX_SSE_BUFFER"
      and "MAX_SSE_BUFFER < length (buf @ concat cs)"
  shows "\<exists>k < length cs.
           read_loop h buf n (map Chunk cs @ rest)
             = \<lparr>events = [], ending = Threw (Typed overflow_error), connects = 1,
                reads = Suc (n + k)\<rparr>
           \<and> length (buf @ concat (take k cs)) \<le> MAX_SSE_BUFFER
           \<and> MAX_SSE_BUFFER < length (buf @ concat (take (Suc k) cs))"
  using assms
proof (induction cs arbitrary: buf n)
  case Nil
  then show ?case by simp
next
  case (Cons c cs)
  show ?case
  proof (cases "MAX_SSE_BUFFER < length (buf @ c)")
    case True
    then have "on_chunk h buf c = Overflow"
      by (simp add: on_chunk_def)
    with True Cons.prems(2) show ?thesis
      by (intro exI [of _ 0]) simp
  next
    case False
    have "index_of [LF, LF] ((buf @ c) @ concat cs) = None"
      using Cons.prems(1) by simp
    then have nd: "index_of [LF, LF] (buf @ c) = None"
      by (rule index_of_append_None)
    then have oc: "on_chunk h buf c = Continue [] (buf @ c)"
      using False by (simp add: on_chunk_def process_buffer_None)
    have "\<exists>k < length cs.
           read_loop h (buf @ c) (Suc n) (map Chunk cs @ rest)
             = \<lparr>events = [], ending = Threw (Typed overflow_error), connects = 1,
                reads = Suc (Suc n + k)\<rparr>
           \<and> length ((buf @ c) @ concat (take k cs)) \<le> MAX_SSE_BUFFER
           \<and> MAX_SSE_BUFFER < length ((buf @ c) @ concat (take (Suc k) cs))"
      using Cons.prems False by (intro Cons.IH) simp_all
    then obtain k where k: "k < length cs"
      "read_loop h (buf @ c) (Suc n) (map Chunk cs @ rest)
             = \<lparr>events = [], ending = Threw (Typed overflow_error), connects = 1,
                reads = Suc (Suc n + k)\<rparr>"
      "length ((buf @ c) @ concat (take k cs)) \<le> MAX_SSE_BUFFER"
      "MAX_SSE_BUFFER < length ((buf @ c) @ concat (take (Suc k) cs))"
      by blast
    with oc show ?thesis
      by (intro exI [of _ "Suc k"]) (simp add: Let_def)
  qed
qed

lemma process_lines_payloads: "process_lines h ls = process_payloads h (data_payloads ls)"
  by (induction ls) (auto simp: data_payloads_def Let_def split: sum.splits prod.splits)

lemma stream_iterate_ok:
  "net 0 = Resolves res \<Longrightarrow> ok res \<Longrightarrow>
   stream_iterate h net (Inr rs) = read_loop h [] 0 rs"
  by (simp add: stream_iterate_def)

text \<open>The buffer that the loop keeps after a chunk holds no blank line.\<close>

lemma on_chunk_no_delimiter:
  "on_chunk h buffer text = Continue evs buffer' \<Longrightarrow> index_of [LF, LF] buffer' = None"
proof -
  assume c: "on_chunk h buffer text = Continue evs buffer'"
  obtain e s l where pb: "process_buffer h (buffer @ text) = (e, s, l)"
    by (cases "process_buffer h (buffer @ text)")
  with c have "process_buffer h (buffer @ text) = (e, False, buffer')"
    by (auto simp: on_chunk_def split: if_splits bool.splits)
  then show ?thesis
    by (rule process_buffer_no_delimiter)
qed

text \<open>
  The sentinel in any frame, at any split of the text into chunks: the events are
  those of the lines before the sentinel line, and nothing after it is looked at.
\<close>

lemma done_general:
  assumes "index_of [LF, LF] buffer = None"
      and "well_formed_frames (fs @ [before @ line # after])"
      and "starts_with line (js ''data:'')" and "js_trim (drop 5 line) = js ''[DONE]''"
      and "buffer @ concat cs = sse_wire (fs @ [before @ line # after]) @ tail"
      and "length (buffer @ concat cs) \<le> MAX_SSE_BUFFER"
  shows "events (read_loop h buffer n (map Chunk cs @ rest))
           = fst (process_lines h (concat fs @ before))
         \<and> ending (read_loop h buffer n (map Chunk cs @ rest)) = Returned
         \<and> reads (read_loop h buffer n (map Chunk cs @ rest)) \<le> n + length cs"
proof -
  let ?evs = "fst (process_lines h (concat fs @ before))"
  have "process_lines h (line # after) = ([], True)"
    using assms(3,4) by simp
  then have pl: "process_lines h (concat (fs @ [before @ line # after])) = (?evs, True)"
    using process_lines_append [of h "concat fs @ before" "line # after"]
    by (cases "process_lines h (concat fs @ before)") (auto split: bool.splits)
  obtain left where
    "process_buffer h (sse_wire (fs @ [before @ line # after]) @ tail) = (?evs, True, left)"
    using process_buffer_wire [OF assms(2), of h tail] pl by auto
  then have pb: "process_buffer h (buffer @ concat cs) = (?evs, True, left)"
    using assms(5) by simp
  have
    "if True
     then events (read_loop h buffer n (map Chunk cs @ rest)) = ?evs
          \<and> ending (read_loop h buffer n (map Chunk cs @ rest)) = Returned
          \<and> reads (read_loop h buffer n (map Chunk cs @ rest)) \<le> n + length cs
     else read_loop h buffer n (map Chunk cs @ rest)
            = (read_loop h left (n + length cs) rest)
                \<lparr>events := ?evs @ events (read_loop h left (n + length cs) rest)\<rparr>"
    using assms(1) assms(6) pb by (rule read_loop_chunks)
  then show ?thesis
    by simp
qed

text \<open>
  C6. Take the read loop in any state: the buffer it keeps holds no blank line. Let
  the buffer and the chunks \<open>cs\<close> that arrive, of any sizes, make up a sequence of
  well-formed frames followed by anything (\<open>tail\<close>), and let a line of the last of
  these frames be a data line whose trimmed payload is \<open>[DONE]\<close>. Then the loop yields
  the events of the lines before that line and the generator returns: the lines after
  it in the frame, the rest of the buffer and the reads that follow (\<open>rest\<close>) have no
  effect, and no read beyond the chunks \<open>cs\<close> is made. In particular a connected stream
  with the text \<open>data: {"a":1}\n\ndata: [DONE]\n\n\<close>, in chunks of any sizes and with
  anything after it, yields the one event that \<open>JSON.parse\<close> makes of \<open>{"a":1}\<close>, and
  returns.
\<close>

theorem done_terminates:
  "(index_of [LF, LF] buffer = None
    \<and> well_formed_frames (fs @ [before @ line # after])
    \<and> starts_with line (js ''data:'') \<and> js_trim (drop 5 line) = js ''[DONE]''
    \<and> buffer @ concat cs = sse_wire (fs @ [before @ line # after]) @ tail
    \<and> length (buffer @ concat cs) \<le> MAX_SSE_BUFFER
    \<longrightarrow> events (read_loop h buffer n (map Chunk cs @ rest))
          = fst (process_lines h (concat fs @ before))
        \<and> ending (read_loop h buffer n (map Chunk cs @ rest)) = Returned
        \<and> reads (read_loop h buffer n (map Chunk cs @ rest)) \<le> n + length cs)
   \<and> (net 0 = Resolves res \<and> ok res
       \<and> JSON_parse h (js ''{\"a\":1}'') = Inr v
       \<and> concat ds = js ''data: {\"a\":1}\<newline>\<newline>data: [DONE]\<newline>\<newline>''
    \<longrightarrow> events (stream_iterate h net (Inr (map Chunk ds @ rest))) = [v]
        \<and> ending (stream_iterate h net (Inr (map Chunk ds @ rest))) = Returned)"
proof (intro conjI impI)
  assume a: "index_of [LF, LF] buffer = None
    \<and> well_formed_frames (fs @ [before @ line # after])
    \<and> starts_with line (js ''data:'') \<and> js_trim (drop 5 line) = js ''[DONE]''
    \<and> buffer @ concat cs = sse_wire (fs @ [before @ line # after]) @ tail
    \<and> length (buffer @ concat cs) \<le> MAX_SSE_BUFFER"
  have g: "events (read_loop h buffer n (map Chunk cs @ rest))
           = fst (process_lines h (concat fs @ before))
         \<and> ending (read_loop h buffer n (map Chunk cs @ rest)) = Returned
         \<and> reads (read_loop h buffer n (map Chunk cs @ rest)) \<le> n + length cs"
  proof (rule done_general [where tail = tail and after = after])
    show "index_of [LF, LF] buffer = None" using a by simp
    show "well_formed_frames (fs @ [before @ line # after])" using a by simp
    show "starts_with line (js ''data:'')" using a by simp
    show "js_trim (drop 5 line) = js ''[DONE]''" using a by simp
    show "buffer @ concat cs = sse_wire (fs @ [before @ line # after]) @ tail"
      using a by simp
    show "length (buffer @ concat cs) \<le> MAX_SSE_BUFFER" using a by blast
  qed
  from g show "events (read_loop h buffer n (map Chunk cs @ rest))
           = fst (process_lines h (concat fs @ before))" by simp
  from g show "ending (read_loop h buffer n (map Chunk cs @ rest)) = Returned" by simp
  from g show "reads (read_loop h buffer n (map Chunk cs @ rest)) \<le> n + length cs" by simp
next
  assume b: "net 0 = Resolves res \<and> ok res
       \<and> JSON_parse h (js ''{\"a\":1}'') = Inr v
       \<and> concat ds = js ''data: {\"a\":1}\<newline>\<newline>data: [DONE]\<newline>\<newline>''"
  let ?fs = "[[js ''data: {\"a\":1}'']]"
  let ?line = "js ''data: [DONE]''"
  have nd: "index_of [LF, LF] [] = None"
    by simp
  have wf: "well_formed_frames (?fs @ [[] @ ?line # []])"
    by (simp add: well_formed_frames_def js_def LF_def)
  have st: "starts_with ?line (js ''data:'')"
    by (simp add: js_def starts_with_def)
  have tr: "js_trim (drop 5 ?line) = js ''[DONE]''"
    by (simp add: js_def js_trim_def is_space_def)
  have tx: "[] @ concat ds = sse_wire (?fs @ [[] @ ?line # []]) @ []"
    using b by (simp add: sse_wire_def js_def LF_def)
  have ln: "length ([] @ concat ds) \<le> MAX_SSE_BUFFER"
    using b by (simp add: js_def MAX_SSE_BUFFER_def)
  have ev: "fst (process_lines h (concat ?fs @ [])) = [v]"
    using b by (simp add: js_def starts_with_def js_trim_def is_space_def)
  have g: "events (read_loop h [] 0 (map Chunk ds @ rest))
           = fst (process_lines h (concat ?fs @ []))
         \<and> ending (read_loop h [] 0 (map Chunk ds @ rest)) = Returned
         \<and> reads (read_loop h [] 0 (map Chunk ds @ rest)) \<le> 0 + length ds"
    using nd wf st tr tx ln by (rule done_general)
  have si: "stream_iterate h net (Inr (map Chunk ds @ rest))
              = read_loop h [] 0 (map Chunk ds @ rest)"
    using b by (simp add: stream_iterate_ok)
  from g ev si show "events (stream_iterate h net (Inr (map Chunk ds @ rest))) = [v]"
    by simp
  from g si show "ending (stream_iterate h net (Inr (map Chunk ds @ rest))) = Returned"
    by simp
qed

theorem done_terminates_witness:
  "index_of [LF, LF] (js ''data: {\"a\":1}\<newline>'') = None
   \<and> well_formed_frames ([[js ''data: {\"a\":1}'']] @ [[] @ js ''data:  [DONE] '' # []])
   \<and> starts_with (js ''data:  [DONE] '') (js ''data:'')
   \<and> js_trim (drop 5 (js ''data:  [DONE] '')) = js ''[DONE]''
   \<and> js ''data: {\"a\":1}\<newline>'' @ concat [js ''\<newline>data:  [DONE] \<newline>\<newline>data: {\"b''] 
       = sse_wire ([[js ''data: {\"a\":1}'']] @ [[] @ js ''data:  [DONE] '' # []])
           @ js ''data: {\"b''
   \<and> events (read_loop test_host (js ''data: {\"a\":1}\<newline>'') 1
        (map Chunk [js ''\<newline>data:  [DONE] \<newline>\<newline>data: {\"b'']
           @ [Chunk (js ''\":2}\<newline>\<newline>'')]))
       = [JObj [(js ''a'', JNum (Num 1))]]
   \<and> reads (read_loop test_host (js ''data: {\"a\":1}\<newline>'') 1
        (map Chunk [js ''\<newline>data:  [DONE] \<newline>\<newline>data: {\"b'']
           @ [Chunk (js ''\":2}\<newline>\<newline>'')]))
       \<le> 2
   \<and> (\<lambda>k. Resolves (test_response 200 Map.empty [])) 0
      = Resolves (test_response 200 Map.empty [])
   \<and> ok (test_response 200 Map.empty [])
   \<and> JSON_parse test_host (js ''{\"a\":1}'') = Inr (JObj [(js ''a'', JNum (Num 1))])
   \<and> concat [js ''data: {\"a\":1}\<newline>\<newline>'', js ''data: [DONE]\<newline>\<newline>'']
       = js ''data: {\"a\":1}\<newline>\<newline>data: [DONE]\<newline>\<newline>''
   \<and> events (stream_iterate test_host (\<lambda>k. Resolves (test_response 200 Map.empty []))
        (Inr (map Chunk [js ''data: {\"a\":1}\<newline>\<newline>'', js ''data: [DONE]\<newline>\<newline>'']
                @ [Chunk (js ''\":2}\<newline>\<newline>'')])))
       = [JObj [(js ''a'', JNum (Num 1))]]
   \<and> ending (stream_iterate test_host (\<lambda>k. Resolves (test_response 200 Map.empty []))
        (Inr (map Chunk [js ''data: {\"a\":1}\<newline>\<newline>'', js ''data: [DONE]\<newline>\<newline>'']
                @ [Chunk (js ''\":2}\<newline>\<newline>'')])))
       = Returned"
  using done_terminates
    [where buffer = "js ''data: {\"a\":1}\<newline>''" and n = 1
       and fs = "[[js ''data: {\"a\":1}'']]" and before = "[]"
       and line = "js ''data:  [DONE] ''" and after = "[]"
       and cs = "[js ''\<newline>data:  [DONE] \<newline>\<newline>data: {\"b'']"
       and tail = "js ''data: {\"b''"
       and net = "\<lambda>k. Resolves (test_response 200 Map.empty [])"
       and res = "test_response 200 Map.empty []" and h = test_host
       and v = "JObj [(js ''a'', JNum (Num 1))]"
       and ds = "[js ''data: {\"a\":1}\<newline>\<newline>'', js ''data: [DONE]\<newline>\<newline>'']"
       and rest = "[Chunk (js ''\":2}\<newline>\<newline>'')]"]
  by (simp add: ok_def test_response_def test_host_def test_parse_def js_def
        well_formed_frames_def sse_wire_def starts_with_def js_trim_def is_space_def LF_def
        MAX_SSE_BUFFER_def)

text \<open>
  C7. The stream is connected and its text, in chunks of any sizes, is a sequence of
  well-formed frames whose data lines carry, in this order, a payload that
  \<open>JSON.parse\<close> accepts, a payload other than the sentinel that it rejects, and a
  payload that it accepts; after them the stream ends or the sentinel follows. Then
  the traversal yields exactly the two parsed values, in that order, and returns.
\<close>

theorem malformed_line_skipped:
  assumes "net 0 = Resolves res" and "ok res"
      and "well_formed_frames fs"
      and "data_payloads (concat fs) = d1 # bad # d2 # post"
      and "post = [] \<or> (\<exists>p. post = js ''[DONE]'' # p)"
      and "JSON_parse h d1 = Inr v1" and "JSON_parse h bad = Inl m"
      and "JSON_parse h d2 = Inr v2"
      and "d1 \<noteq> js ''[DONE]''" and "bad \<noteq> js ''[DONE]''" and "d2 \<noteq> js ''[DONE]''"
      and "concat cs = sse_wire fs" and "length (concat cs) \<le> MAX_SSE_BUFFER"
  shows "events (stream_iterate h net (Inr (map Chunk cs))) = [v1, v2]
         \<and> ending (stream_iterate h net (Inr (map Chunk cs))) = Returned"
proof -
  obtain stop where pl: "process_lines h (concat fs) = ([v1, v2], stop)"
    using assms(4-11) by (auto simp: process_lines_payloads)
  obtain left where
    "process_buffer h (sse_wire fs @ []) =
       (case process_lines h (concat fs) of
          (e, True) \<Rightarrow> (e, True, left)
        | (e, False) \<Rightarrow> (case process_buffer h [] of (e', x) \<Rightarrow> (e @ e', x)))"
    using process_buffer_wire [OF assms(3), of h "[]"] by blast
  then obtain left' where pb: "process_buffer h ([] @ concat cs) = ([v1, v2], stop, left')"
    using pl assms(12) by (cases stop) (simp_all add: process_buffer_None)
  have "index_of [LF, LF] [] = None" by simp
  moreover have "length ([] @ concat cs) \<le> MAX_SSE_BUFFER"
    using assms(13) by simp
  ultimately have
    "if stop
     then events (read_loop h [] 0 (map Chunk cs @ [])) = [v1, v2]
          \<and> ending (read_loop h [] 0 (map Chunk cs @ [])) = Returned
          \<and> reads (read_loop h [] 0 (map Chunk cs @ [])) \<le> 0 + length cs
     else read_loop h [] 0 (map Chunk cs @ [])
            = (read_loop h left' (0 + length cs) [])
                \<lparr>events := [v1, v2] @ events (read_loop h left' (0 + length cs) [])\<rparr>"
    using pb by (rule read_loop_chunks)
  then show ?thesis
    using assms(1,2) by (cases stop) (simp_all add: stream_iterate_ok)
qed

theorem malformed_line_skipped_witness:
  "ok (test_response 200 Map.empty [])
   \<and> well_formed_frames
        [[js ''data: {\"a\":1}''], [js ''data: {invalid json''], [js ''data: {\"b\":2}''],
         [js ''data: [DONE]'']]
   \<and> data_payloads (concat
        [[js ''data: {\"a\":1}''], [js ''data: {invalid json''], [js ''data: {\"b\":2}''],
         [js ''data: [DONE]'']])
       = js ''{\"a\":1}'' # js ''{invalid json'' # js ''{\"b\":2}'' # [js ''[DONE]'']
   \<and> JSON_parse test_host (js ''{invalid json'') = Inl (js ''Unexpected token'')
   \<and> events (stream_iterate test_host (\<lambda>k. Resolves (test_response 200 Map.empty []))
        (Inr (map Chunk
           [js ''data: {\"a\":1}\<newline>\<newline>'', js ''data: {invalid json\<newline>\<newline>'',
            js ''data: {\"b\":2}\<newline>\<newline>'', js ''data: [DONE]\<newline>\<newline>''])))
       = [JObj [(js ''a'', JNum (Num 1))], JObj [(js ''b'', JNum (Num 2))]]
   \<and> ending (stream_iterate test_host (\<lambda>k. Resolves (test_response 200 Map.empty []))
        (Inr (map Chunk
           [js ''data: {\"a\":1}\<newline>\<newline>'', js ''data: {invalid json\<newline>\<newline>'',
            js ''data: {\"b\":2}\<newline>\<newline>'', js ''data: [DONE]\<newline>\<newline>''])))
       = Returned"
  using malformed_line_skipped
    [where net = "\<lambda>k. Resolves (test_response 200 Map.empty [])"
       and res = "test_response 200 Map.empty []" and h = test_host
       and fs = "[[js ''data: {\"a\":1}''], [js ''data: {invalid json''],
                  [js ''data: {\"b\":2}''], [js ''data: [DONE]'']]"
       and ?d1.0 = "js ''{\"a\":1}''" and bad = "js ''{invalid json''"
       and ?d2.0 = "js ''{\"b\":2}''" and post = "[js ''[DONE]'']"
       and ?v1.0 = "JObj [(js ''a'', JNum (Num 1))]"
       and ?v2.0 = "JObj [(js ''b'', JNum (Num 2))]"
       and m = "js ''Unexpected token''"
       and cs = "[js ''data: {\"a\":1}\<newline>\<newline>'', js ''data: {invalid json\<newline>\<newline>'',
                  js ''data: {\"b\":2}\<newline>\<newline>'', js ''data: [DONE]\<newline>\<newline>'']"]
  by (simp add: ok_def test_response_def test_host_def test_parse_def js_def
        well_formed_frames_def data_payloads_def sse_wire_def starts_with_def js_trim_def
        is_space_def LF_def MAX_SSE_BUFFER_def)

text \<open>
  C8. The bound is 10 MiB, counted in the code units of the buffer. Whenever the loop
  goes on after a chunk, the buffer it keeps is within the bound. From any state of the
  loop whose buffer is within the bound, chunks that bring the buffer above the bound
  without a blank line in it end the traversal with the API error of status 0 for
  the overflow, at the first read after which the text is longer than the bound, and
  yield nothing.
\<close>

theorem buffer_bounded:
  "MAX_SSE_BUFFER = 10485760
   \<and> (on_chunk h buffer text = Continue evs buffer' \<longrightarrow> length buffer' \<le> MAX_SSE_BUFFER)
   \<and> (index_of [LF, LF] (buffer @ concat cs) = None
        \<and> length buffer \<le> MAX_SSE_BUFFER
        \<and> MAX_SSE_BUFFER < length (buffer @ concat cs)
      \<longrightarrow> (\<exists>k < length cs.
             read_loop h buffer n (map Chunk cs @ rest)
               = \<lparr>events = [],
                  ending = Threw (Typed
                    (APIError
                       (js ''SSE buffer overflow: server sent too much data without delimiters'')
                       (Some 0) None)),
                  connects = 1, reads = Suc (n + k)\<rparr>
             \<and> length (buffer @ concat (take k cs)) \<le> MAX_SSE_BUFFER
             \<and> MAX_SSE_BUFFER < length (buffer @ concat (take (Suc k) cs))))"
proof (intro conjI impI)
  show "MAX_SSE_BUFFER = 10485760"
    by (simp add: MAX_SSE_BUFFER_def)
next
  assume c: "on_chunk h buffer text = Continue evs buffer'"
  then have le: "length (buffer @ text) \<le> MAX_SSE_BUFFER"
    by (auto simp: on_chunk_def split: if_splits)
  obtain e s l where pb: "process_buffer h (buffer @ text) = (e, s, l)"
    by (cases "process_buffer h (buffer @ text)")
  with c le have "l = buffer'"
    by (auto simp: on_chunk_def split: if_splits bool.splits)
  moreover have "length l \<le> length (buffer @ text)"
    using pb by (rule process_buffer_length)
  ultimately show "length buffer' \<le> MAX_SSE_BUFFER"
    using le by simp
next
  assume a: "index_of [LF, LF] (buffer @ concat cs) = None
        \<and> length buffer \<le> MAX_SSE_BUFFER
        \<and> MAX_SSE_BUFFER < length (buffer @ concat cs)"
  have "\<exists>k < length cs.
           read_loop h buffer n (map Chunk cs @ rest)
             = \<lparr>events = [], ending = Threw (Typed overflow_error), connects = 1,
                reads = Suc (n + k)\<rparr>
           \<and> length (buffer @ concat (take k cs)) \<le> MAX_SSE_BUFFER
           \<and> MAX_SSE_BUFFER < length (buffer @ concat (take (Suc k) cs))"
  proof (rule read_loop_overflow)
    show "index_of [LF, LF] (buffer @ concat cs) = None" using a by simp
    show "length buffer \<le> MAX_SSE_BUFFER" using a by simp
    show "MAX_SSE_BUFFER < length (buffer @ concat cs)" using a by blast
  qed
  then show "\<exists>k < length cs.
             read_loop h buffer n (map Chunk cs @ rest)
               = \<lparr>events = [],
                  ending = Threw (Typed
                    (APIError
                       (js ''SSE buffer overflow: server sent too much data without delimiters'')
                       (Some 0) None)),
                  connects = 1, reads = Suc (n + k)\<rparr>
             \<and> length (buffer @ concat (take k cs)) \<le> MAX_SSE_BUFFER
             \<and> MAX_SSE_BUFFER < length (buffer @ concat (take (Suc k) cs))"
    by (simp add: overflow_error_def)
qed

lemma test_flood_length: "length test_flood = Suc MAX_SSE_BUFFER"
  by (simp add: test_flood_def)

lemma test_flood_no_delimiter: "index_of [LF, LF] test_flood = None"
proof -
  have "LF \<notin> set test_flood"
    by (simp add: test_flood_def LF_def)
  then have "index_of [LF, LF] (test_flood @ []) = None"
    by (subst index_of_skip) simp_all
  then show ?thesis by simp
qed

theorem buffer_bounded_witness:
  "on_chunk test_host (js ''data: {'') (js ''\"a\":1}\<newline>\<newline>data:'')
     = Continue [JObj [(js ''a'', JNum (Num 1))]] (js ''data:'')
   \<and> length (js ''data:'') \<le> MAX_SSE_BUFFER
   \<and> index_of [LF, LF] ([] @ concat [test_flood]) = None
   \<and> length ([] :: jstring) \<le> MAX_SSE_BUFFER
   \<and> MAX_SSE_BUFFER < length ([] @ concat [test_flood])
   \<and> stream_iterate test_host (\<lambda>k. Resolves (test_response 200 Map.empty []))
        (Inr (map Chunk [test_flood] @ []))
       = \<lparr>events = [],
          ending = Threw (Typed
            (APIError
               (js ''SSE buffer overflow: server sent too much data without delimiters'')
               (Some 0) None)),
          connects = 1, reads = Suc 0\<rparr>"
proof -
  have c: "on_chunk test_host (js ''data: {'') (js ''\"a\":1}\<newline>\<newline>data:'')
             = Continue [JObj [(js ''a'', JNum (Num 1))]] (js ''data:'')"
    by (simp add: on_chunk_def process_buffer.simps js_def LF_def MAX_SSE_BUFFER_def
          starts_with_def js_trim_def is_space_def test_host_def test_parse_def)
  show ?thesis
    using c
      buffer_bounded [where h = test_host and buffer = "js ''data: {''"
        and ?text = "js ''\"a\":1}\<newline>\<newline>data:''"
        and evs = "[JObj [(js ''a'', JNum (Num 1))]]" and buffer' = "js ''data:''"]
      buffer_bounded [where h = test_host and buffer = "[]" and cs = "[test_flood]"
        and n = 0 and rest = "[]"]
    by (simp add: test_flood_no_delimiter test_flood_length stream_iterate_def ok_def
          test_response_def)
qed

text \<open>
  C9. When the connection of a stream resolves with a response that is not 2xx, the
  traversal yields nothing, reads nothing from the body stream, makes no further
  request, and ends with an error of the base class \<open>WaterlightError\<close> that carries the
  status. Its message is \<open>Streaming error: \<close>, the status, a space and the text of the
  response (empty when reading the text fails). The status does not select the class
  of the error, and the stream holds no retry bound.
\<close>

theorem stream_connect_error:
  assumes "net 0 = Resolves res" and "\<not> ok res"
  shows "stream_iterate h net reader
           = \<lparr>events = [],
              ending = Threw (Typed
                (WaterlightError
                   (js ''Streaming error: '' @ decimal (status res) @ js '' ''
                      @ (case body res of Inl e \<Rightarrow> [] | Inr t \<Rightarrow> t))
                   (Some (status res)) None)),
              connects = 1, reads = 0\<rparr>"
  using assms by (simp add: stream_iterate_def)

theorem stream_connect_error_witness:
  "(\<lambda>k. Resolves (test_response 401 Map.empty ''Server Error'')) 0
     = Resolves (test_response 401 Map.empty ''Server Error'')
   \<and> \<not> ok (test_response 401 Map.empty ''Server Error'')
   \<and> stream_iterate test_host (\<lambda>k. Resolves (test_response 401 Map.empty ''Server Error''))
        (Inr [])
       = \<lparr>events = [],
          ending = Threw (Typed
            (WaterlightError (js ''Streaming error: 401 Server Error'') (Some 401) None)),
          connects = 1, reads = 0\<rparr>"
  using stream_connect_error
    [of "\<lambda>k. Resolves (test_response 401 Map.empty ''Server Error'')"
        "test_response 401 Map.empty ''Server Error''" test_host "Inr []"]
  by (simp add: ok_def test_response_def decimal.simps js_def)

end
